theory Spec2Isabelle
  imports Main "HOL-Library.Sublist"
begin

section \<open>Data model\<close>

text \<open>
  The orchestrator \<^verbatim>\<open>index\<close> (the main module) and \<^verbatim>\<open>getAccessToken\<close>,
  \<^verbatim>\<open>getServiceAccountCredentials\<close> (\<^verbatim>\<open>shared/auth.ts\<close>) are embedded as state-passing
  functions. Everything \<^verbatim>\<open>index\<close> imports from \<^verbatim>\<open>shared/gsc\<close>, \<^verbatim>\<open>shared/sitemap\<close>,
  \<^verbatim>\<open>shared/utils\<close> and the JWT client are collaborators whose answers are not fixed by the
  orchestrator: they are fields of an environment record and may answer differently each
  time they are asked (they receive the logical clock, which ticks at every call).
\<close>

text \<open>The enum \<^verbatim>\<open>Status\<close> of \<^verbatim>\<open>shared/types\<close>, with the members the orchestrator names.\<close>

datatype Status =
    SubmittedAndIndexed
  | DuplicateWithoutUserSelectedCanonical
  | CrawledCurrentlyNotIndexed
  | DiscoveredCurrentlyNotIndexed
  | PageWithRedirect
  | URLIsUnknownToGoogle
  | RateLimited
  | Forbidden
  | Error

text \<open>
  \<^verbatim>\<open>ServiceAccount\<close>. A field that is missing in the JSON document (\<^verbatim>\<open>undefined\<close>) and
  an empty string are both falsy in every test the code makes; both are the empty string here.
\<close>

record ServiceAccount =
  client_email :: string
  private_key :: string

text \<open>An element of \<^verbatim>\<open>validCredentials\<close>: the credential and its (mutable) token.\<close>

record session =
  credential :: ServiceAccount
  accessToken :: string

text \<open>
  A value of the cache document. \<^verbatim>\<open>lastCheckedAt\<close> is an ISO string in the source and is
  only ever read through \<^verbatim>\<open>new Date(lastCheckedAt)\<close>: it is modelled by the time value of
  that date in milliseconds, \<open>None\<close> for a string that does not parse (an invalid date).
\<close>

record PageStatusRecord =
  status :: Status
  lastCheckedAt :: "int option"

type_synonym cache = "string \<rightharpoonup> PageStatusRecord"

text \<open>A file under \<^verbatim>\<open>.cache\<close>: a parsable document, or text that \<^verbatim>\<open>JSON.parse\<close> rejects.\<close>

datatype cache_doc = Doc cache | Corrupt

text \<open>The service-account file after \<^verbatim>\<open>JSON.parse\<close>: an array, a single object, or unparsable.\<close>

datatype key_json = KeyArray "ServiceAccount list" | KeyObject ServiceAccount | KeyUnparsable

text \<open>
  How a call ends: it returns, it throws (a rejected promise), or the process exits
  (\<^verbatim>\<open>process.exit(code)\<close>).
\<close>

datatype 'a result = Ok 'a | Thrown string | Exited nat

text \<open>
  What a run does that can be observed from outside, in order. Plain \<^verbatim>\<open>console.log\<close>
  progress output and the messages printed right before a \<^verbatim>\<open>process.exit\<close> are left out:
  an exit is visible in the result.
\<close>

datatype event =
    Warned string                  \<comment> \<open>\<^verbatim>\<open>console.warn\<close>: the service account that failed\<close>
  | Reported string                \<comment> \<open>\<^verbatim>\<open>console.error\<close>: failed to process this URL\<close>
  | StatusCall string string Status  \<comment> \<open>\<^verbatim>\<open>getPageIndexingStatus\<close>: token, url, answer\<close>
  | ProbeCall string string nat int  \<comment> \<open>\<^verbatim>\<open>getPublishMetadata\<close>: token, url, retries, answer\<close>
  | RequestCall string string int    \<comment> \<open>\<^verbatim>\<open>requestIndexing\<close>: token, url, answer\<close>
  | Rotated nat                      \<comment> \<open>\<^verbatim>\<open>rotateAccount\<close>: the new index\<close>
  | CacheWritten string              \<comment> \<open>\<^verbatim>\<open>writeFileSync(cachePath, ...)\<close>\<close>

text \<open>
  The collaborators. A remote call takes the logical clock first. Those that the
  interface list of the design lets fail return \<open>Inl message\<close> for a thrown error.
  \<open>authorize\<close> is \<^verbatim>\<open>jwtClient.authorize()\<close> and answers the \<^verbatim>\<open>access_token\<close> of the
  tokens, empty when there is none. \<open>dateNow\<close> is the wall clock in milliseconds.
  \<open>homeKeyPath\<close> is \<^verbatim>\<open>path.join(os.homedir(), ".gis", "service_account.json")\<close> and
  \<open>keyFiles\<close> the service-account files that exist.
\<close>

record env =
  authorize :: "nat \<Rightarrow> string \<Rightarrow> string \<Rightarrow> string + string"
  checkSiteUrl :: "nat \<Rightarrow> string \<Rightarrow> string \<Rightarrow> string + string"
  getSitemapPages :: "nat \<Rightarrow> string \<Rightarrow> string \<Rightarrow> string + (string list \<times> string list)"
  checkCustomUrls :: "string \<Rightarrow> string list \<Rightarrow> string + string list"
  getPageIndexingStatus :: "nat \<Rightarrow> string \<Rightarrow> string \<Rightarrow> string \<Rightarrow> Status"
  getPublishMetadata :: "nat \<Rightarrow> string \<Rightarrow> string \<Rightarrow> nat \<Rightarrow> int"
  requestIndexing :: "nat \<Rightarrow> string \<Rightarrow> string \<Rightarrow> int"
  dateNow :: "nat \<Rightarrow> int"
  convertToSiteUrl :: "string \<Rightarrow> string"
  convertToFilePath :: "string \<Rightarrow> string"
  homeKeyPath :: string
  keyFiles :: "string \<rightharpoonup> key_json"

text \<open>
  The state of a run: the world outside (\<open>clock\<close>, \<open>cacheFiles\<close>, \<open>trace\<close>) and the
  variables of \<^verbatim>\<open>index\<close> that its closures share and mutate. The keys of the object
  \<^verbatim>\<open>pagesPerStatus\<close> are the members of \<^verbatim>\<open>Status\<close> and the key \<^verbatim>\<open>"undefined"\<close>, which
  is \<open>None\<close>: the callback files a page under it when the value it found for the page has
  no \<^verbatim>\<open>status\<close>. A key that the object does not have holds the empty list here, since the
  callback starts a list for it.
\<close>

record state =
  clock :: nat
  cacheFiles :: "string \<rightharpoonup> cache_doc"
  trace :: "event list"
  validCredentials :: "session list"
  currentAccountIndex :: nat
  statusPerUrl :: cache
  pagesPerStatus :: "Status option \<Rightarrow> string list"

definition tick :: "state \<Rightarrow> state" where
  "tick s = s\<lparr>clock := Suc (clock s)\<rparr>"

definition emit :: "event \<Rightarrow> state \<Rightarrow> state" where
  "emit e s = s\<lparr>trace := trace s @ [e]\<rparr>"

text \<open>Sequencing: a throw or an exit of the first part ends the whole.\<close>

definition andThen ::
  "'a result \<times> state \<Rightarrow> ('a \<Rightarrow> state \<Rightarrow> 'b result \<times> state) \<Rightarrow> 'b result \<times> state" where
  "andThen m f =
     (case m of
        (Ok x, s) \<Rightarrow> f x s
      | (Thrown msg, s) \<Rightarrow> (Thrown msg, s)
      | (Exited c, s) \<Rightarrow> (Exited c, s))"

lemma andThen_cong [fundef_cong]:
  "m = m' \<Longrightarrow> (\<And>x s. m' = (Ok x, s) \<Longrightarrow> f x s = f' x s) \<Longrightarrow> andThen m f = andThen m' f'"
  by (auto simp: andThen_def split: prod.splits result.splits)

section \<open>The status cache\<close>

definition CACHE_TIMEOUT :: int where
  "CACHE_TIMEOUT = 1000 * 60 * 60 * 24 * 14"

definition indexableStatuses :: "Status list" where
  "indexableStatuses =
     [DiscoveredCurrentlyNotIndexed, CrawledCurrentlyNotIndexed, URLIsUnknownToGoogle,
      Forbidden, Error, RateLimited]"

text \<open>\<^verbatim>\<open>a < b\<close> on two dates: false as soon as one of them is invalid (NaN).\<close>

definition dateLess :: "int option \<Rightarrow> int option \<Rightarrow> bool" where
  "dateLess a b = (case a of None \<Rightarrow> False | Some x \<Rightarrow> (case b of None \<Rightarrow> False | Some y \<Rightarrow> x < y))"

text \<open>\<^verbatim>\<open>shouldRecheck\<close>; \<open>now\<close> is what \<^verbatim>\<open>Date.now()\<close> answers inside it.\<close>

definition shouldRecheck :: "int \<Rightarrow> Status \<Rightarrow> int option \<Rightarrow> bool" where
  "shouldRecheck now st checkedAt =
     (let shouldIndexIt = st \<in> set indexableStatuses;
          isOld = dateLess checkedAt (Some (now - CACHE_TIMEOUT))
      in shouldIndexIt \<and> isOld)"

section \<open>The credential pool\<close>

text \<open>\<^verbatim>\<open>getAccessToken\<close> of \<^verbatim>\<open>shared/auth.ts\<close>, called at clock \<open>k\<close>.\<close>

definition getAccessToken :: "env \<Rightarrow> nat \<Rightarrow> string \<Rightarrow> string \<Rightarrow> string result" where
  "getAccessToken E k email key =
     (if email = [] then Exited 1
      else if key = [] then Exited 1
      else (case authorize E k email key of
              Inl msg \<Rightarrow> Thrown msg
            | Inr access_token \<Rightarrow>
                if access_token = [] then Thrown ''Failed to retrieve access token.''
                else Ok access_token))"

text \<open>
  \<^verbatim>\<open>rotateAccount\<close>. With an empty list the index would become NaN and the read of
  \<^verbatim>\<open>next.credential\<close> throws a TypeError.
\<close>

definition rotateAccount :: "env \<Rightarrow> state \<Rightarrow> string result \<times> state" where
  "rotateAccount E s =
     (if validCredentials s = [] then (Thrown ''TypeError'', s)
      else
        let i = (currentAccountIndex s + 1) mod length (validCredentials s);
            next = validCredentials s ! i;
            s1 = emit (Rotated i) (s\<lparr>currentAccountIndex := i\<rparr>)
        in (case getAccessToken E (clock s1) (client_email (credential next))
                   (private_key (credential next)) of
              Ok tok \<Rightarrow>
                (Ok tok,
                 tick (s1\<lparr>validCredentials :=
                            (validCredentials s1)[i := next\<lparr>accessToken := tok\<rparr>]\<rparr>))
            | Thrown msg \<Rightarrow> (Thrown msg, tick s1)
            | Exited c \<Rightarrow> (Exited c, s1)))"

text \<open>
  \<^verbatim>\<open>validCredentials[currentAccountIndex].accessToken\<close>; out of range the element is
  \<^verbatim>\<open>undefined\<close> and the property read throws.
\<close>

definition activeToken :: "state \<Rightarrow> string result \<times> state" where
  "activeToken s =
     (if currentAccountIndex s < length (validCredentials s)
      then (Ok (accessToken (validCredentials s ! currentAccountIndex s)), s)
      else (Thrown ''TypeError'', s))"

lemma rotateAccount_length:
  "rotateAccount E s = (r, s') \<Longrightarrow> length (validCredentials s') = length (validCredentials s)"
  by (auto simp: rotateAccount_def Let_def tick_def emit_def split: if_splits result.splits)

lemma rotation_decreases:
  assumes "rotationCount < length (validCredentials s)"
    and "activeToken s = (Ok tok, s0)"
    and "rotateAccount E (tick (emit ev s0)) = (Ok x, s2)"
  shows "length (validCredentials s2) - Suc rotationCount < length (validCredentials s) - rotationCount"
proof -
  from assms(2) have "s0 = s"
    by (auto simp: activeToken_def split: if_splits)
  then have "length (validCredentials (tick (emit ev s0))) = length (validCredentials s)"
    by (simp add: tick_def emit_def)
  with rotateAccount_length[OF assms(3)] assms(1) show ?thesis
    by simp
qed

lemma rotation_decreases2:
  assumes "rotationCount < length (validCredentials s)"
    and "activeToken s = (Ok tok, s0)"
    and "rotateAccount E (tick (emit ev' (tick (emit ev s0)))) = (Ok x, s2)"
  shows "length (validCredentials s2) - Suc rotationCount < length (validCredentials s) - rotationCount"
proof -
  from assms(2) have "s0 = s"
    by (auto simp: activeToken_def split: if_splits)
  then have "length (validCredentials (tick (emit ev' (tick (emit ev s0))))) = length (validCredentials s)"
    by (simp add: tick_def emit_def)
  with rotateAccount_length[OF assms(3)] assms(1) show ?thesis
    by simp
qed

section \<open>Phase B: the status check of one URL\<close>

text \<open>
  The \<^verbatim>\<open>while\<close> loop of the batch callback, with its variables \<^verbatim>\<open>status\<close> and
  \<^verbatim>\<open>rotationCount\<close> as arguments.
\<close>

function statusLoop ::
  "env \<Rightarrow> string \<Rightarrow> string \<Rightarrow> Status \<Rightarrow> nat \<Rightarrow> state \<Rightarrow> Status result \<times> state" where
  "statusLoop E siteUrl url st rotationCount s =
     (if rotationCount < length (validCredentials s) then
        andThen (activeToken s) (\<lambda>tok s0.
          let st' = getPageIndexingStatus E (clock s0) tok siteUrl url;
              s1 = tick (emit (StatusCall tok url st') s0)
          in if st' = RateLimited then
               andThen (rotateAccount E s1)
                 (\<lambda>_ s2. statusLoop E siteUrl url st' (rotationCount + 1) s2)
             else if st' = Forbidden then
               andThen (rotateAccount E s1)
                 (\<lambda>_ s2. statusLoop E siteUrl url st' (rotationCount + 1) s2)
             else (Ok st', s1))
      else (Ok st, s))"
  by pat_completeness auto
termination
  by (relation "measure (\<lambda>(E, siteUrl, url, st, rotationCount, s).
                  length (validCredentials s) - rotationCount)")
     (auto dest: rotation_decreases)

text \<open>
  \<^verbatim>\<open>statusPerUrl\<close> is a plain object (\<^verbatim>\<open>{}\<close> or the result of \<^verbatim>\<open>JSON.parse\<close>), so the read
  \<^verbatim>\<open>statusPerUrl[url]\<close> finds an own property (a record of the document) or, when there is
  none and the key is the name of a member of \<^verbatim>\<open>Object.prototype\<close>, that inherited member:
  a function, or the prototype itself for \<^verbatim>\<open>__proto__\<close>. Such a value is truthy and has
  neither a \<^verbatim>\<open>status\<close> nor a \<^verbatim>\<open>lastCheckedAt\<close>.
\<close>

definition objectPrototypeMembers :: "string list" where
  "objectPrototypeMembers =
     [''constructor'', ''__defineGetter__'', ''__defineSetter__'', ''hasOwnProperty'',
      ''__lookupGetter__'', ''__lookupSetter__'', ''isPrototypeOf'', ''propertyIsEnumerable'',
      ''toString'', ''valueOf'', ''__proto__'', ''toLocaleString'']"

datatype property = Undefined | Inherited | Own PageStatusRecord

definition getProperty :: "cache \<Rightarrow> string \<Rightarrow> property" where
  "getProperty obj key =
     (case obj key of
        Some res \<Rightarrow> Own res
      | None \<Rightarrow> if key \<in> set objectPrototypeMembers then Inherited else Undefined)"

text \<open>
  The callback handed to \<^verbatim>\<open>batch\<close>: consult the cache, fetch live on a miss or a stale
  indexable record, store the fresh record, and append the URL to its status' pages.
  \<^verbatim>\<open>Date.now()\<close> is read only when a value was found (\<^verbatim>\<open>||\<close> short-circuits). For an
  inherited member \<^verbatim>\<open>shouldRecheck(undefined, undefined)\<close> reads the time and answers false
  (\<^verbatim>\<open>includes\<close> fails and the date is invalid): nothing is fetched, nothing is stored, and the
  page is filed under the key \<^verbatim>\<open>"undefined"\<close>. The assignment \<^verbatim>\<open>statusPerUrl[url] = result\<close>
  is only reached when there is no value or an own record, so it creates or overwrites an
  own property.
\<close>

definition addPage :: "Status option \<Rightarrow> string \<Rightarrow> state \<Rightarrow> state" where
  "addPage key url s = s\<lparr>pagesPerStatus := (pagesPerStatus s)(key := pagesPerStatus s key @ [url])\<rparr>"

definition fetchLive :: "env \<Rightarrow> string \<Rightarrow> string \<Rightarrow> state \<Rightarrow> unit result \<times> state" where
  "fetchLive E siteUrl url s =
     andThen (statusLoop E siteUrl url Error 0 s) (\<lambda>st s1.
       let res = \<lparr>status = st, lastCheckedAt = Some (dateNow E (clock s1))\<rparr>;
           s2 = (tick s1)\<lparr>statusPerUrl := (statusPerUrl s1)(url \<mapsto> res)\<rparr>
       in (Ok (), addPage (Some (status res)) url s2))"

definition checkPage :: "env \<Rightarrow> string \<Rightarrow> string \<Rightarrow> state \<Rightarrow> unit result \<times> state" where
  "checkPage E siteUrl url s =
     (case getProperty (statusPerUrl s) url of
        Undefined \<Rightarrow> fetchLive E siteUrl url s
      | Own res \<Rightarrow>
          if shouldRecheck (dateNow E (clock s)) (status res) (lastCheckedAt res)
          then fetchLive E siteUrl url (tick s)
          else (Ok (), addPage (Some (status res)) url (tick s))
      | Inherited \<Rightarrow> (Ok (), addPage None url (tick s)))"

text \<open>
  Modelled from the spec: \<^verbatim>\<open>batch\<close> of \<^verbatim>\<open>shared/utils\<close> is not among the sources. The
  bounded batch runner executes the operation over every item; here the items are taken
  in input order and each operation runs to its end before the next starts (the
  interleaving of the operations of one batch at their suspension points is not
  modelled). A throw of an operation ends the run. The progress callback only prints.
\<close>

fun batch ::
  "(string \<Rightarrow> state \<Rightarrow> unit result \<times> state) \<Rightarrow> string list \<Rightarrow> state \<Rightarrow> unit result \<times> state" where
  "batch task [] s = (Ok (), s)"
| "batch task (item # items) s = andThen (task item s) (\<lambda>_ s'. batch task items s')"

section \<open>Phase C: the indexing request of one URL\<close>

definition QUOTA_rpm_retries :: nat where
  "QUOTA_rpm_retries = 3"

text \<open>
  The \<^verbatim>\<open>while\<close> loop of the last \<^verbatim>\<open>for\<close> loop; it returns the flag \<^verbatim>\<open>processed\<close>.
  \<open>rpmRetry\<close> is \<^verbatim>\<open>options.quota.rpmRetry\<close>.
\<close>

function requestLoop ::
  "env \<Rightarrow> bool \<Rightarrow> string \<Rightarrow> nat \<Rightarrow> state \<Rightarrow> bool result \<times> state" where
  "requestLoop E rpmRetry url rotationCount s =
     (if rotationCount < length (validCredentials s) then
        andThen (activeToken s) (\<lambda>tok s0.
          let retries = (if rpmRetry then QUOTA_rpm_retries else 0);
              code = getPublishMetadata E (clock s0) tok url retries;
              s1 = tick (emit (ProbeCall tok url retries code) s0)
          in if code = 429 \<or> code = 403 then
               andThen (rotateAccount E s1)
                 (\<lambda>_ s2. requestLoop E rpmRetry url (rotationCount + 1) s2)
             else if code = 404 then
               let requestStatus = requestIndexing E (clock s1) tok url;
                   s2 = tick (emit (RequestCall tok url requestStatus) s1)
               in if requestStatus = 429 \<or> requestStatus = 403 then
                    andThen (rotateAccount E s2)
                      (\<lambda>_ s3. requestLoop E rpmRetry url (rotationCount + 1) s3)
                  else (Ok True, s2)
             else (Ok True, s1))
      else (Ok False, s))"
  by pat_completeness auto
termination
  by (relation "measure (\<lambda>(E, rpmRetry, url, rotationCount, s).
                  length (validCredentials s) - rotationCount)")
     (auto dest: rotation_decreases rotation_decreases2)

definition processUrl :: "env \<Rightarrow> bool \<Rightarrow> string \<Rightarrow> state \<Rightarrow> unit result \<times> state" where
  "processUrl E rpmRetry url s =
     andThen (requestLoop E rpmRetry url 0 s) (\<lambda>processed s'.
       (Ok (), if \<not> processed then emit (Reported url) s' else s'))"

fun requestPhase :: "env \<Rightarrow> bool \<Rightarrow> string list \<Rightarrow> state \<Rightarrow> unit result \<times> state" where
  "requestPhase E rpmRetry [] s = (Ok (), s)"
| "requestPhase E rpmRetry (url # rest) s =
     andThen (processUrl E rpmRetry url s) (\<lambda>_ s'. requestPhase E rpmRetry rest s')"

section \<open>The orchestrator\<close>

text \<open>
  \<^verbatim>\<open>IndexOptions\<close>; an optional field that is absent is \<open>None\<close>. The two credential
  fields are prefixed because \<^verbatim>\<open>ServiceAccount\<close> has fields of the same names. \<open>quota\<close>
  is the optional object with its optional flag \<^verbatim>\<open>rpmRetry\<close>.
\<close>

record IndexOptions =
  opt_client_email :: "string option"
  opt_private_key :: "string option"
  opt_path :: "string option"
  urls :: "string list option"
  quota :: "bool option option"

text \<open>The variables of \<^verbatim>\<open>process.env\<close> that \<^verbatim>\<open>index\<close> reads.\<close>

record ProcessEnv =
  GIS_CLIENT_EMAIL :: "string option"
  GIS_PRIVATE_KEY :: "string option"
  GIS_PATH :: "string option"
  GIS_URLS :: "string option"
  GIS_QUOTA_RPM_RETRY :: "string option"

text \<open>\<^verbatim>\<open>!x\<close> for an optional string: absent or empty.\<close>

definition falsy :: "string option \<Rightarrow> bool" where
  "falsy x = (case x of None \<Rightarrow> True | Some v \<Rightarrow> v = [])"

text \<open>\<^verbatim>\<open>str.split(",")\<close>.\<close>

fun splitOn :: "char \<Rightarrow> string \<Rightarrow> string list" where
  "splitOn c [] = [[]]"
| "splitOn c (x # xs) =
     (if x = c then [] # splitOn c xs
      else (case splitOn c xs of [] \<Rightarrow> [[x]] | w # ws \<Rightarrow> (x # w) # ws))"

text \<open>The defaults taken from the process environment. An array, even empty, is truthy.\<close>

definition withEnvDefaults :: "ProcessEnv \<Rightarrow> IndexOptions \<Rightarrow> IndexOptions" where
  "withEnvDefaults P options =
     options\<lparr>
       opt_client_email :=
         (if falsy (opt_client_email options) then GIS_CLIENT_EMAIL P else opt_client_email options),
       opt_private_key :=
         (if falsy (opt_private_key options) then GIS_PRIVATE_KEY P else opt_private_key options),
       opt_path := (if falsy (opt_path options) then GIS_PATH P else opt_path options),
       urls :=
         (case urls options of
            None \<Rightarrow> (if falsy (GIS_URLS P) then None else Some (splitOn CHR '','' (the (GIS_URLS P))))
          | Some u \<Rightarrow> Some u),
       quota :=
         (case quota options of
            None \<Rightarrow> Some (Some (GIS_QUOTA_RPM_RETRY P = Some ''true''))
          | Some q \<Rightarrow> Some q)\<rparr>"

text \<open>\<^verbatim>\<open>options.quota.rpmRetry ? ... : ...\<close> after the defaults.\<close>

definition rpmRetryOf :: "IndexOptions \<Rightarrow> bool" where
  "rpmRetryOf options = (quota options = Some (Some True))"

text \<open>\<^verbatim>\<open>getServiceAccountCredentials\<close> of \<^verbatim>\<open>shared/auth.ts\<close>.\<close>

definition getServiceAccountCredentials :: "env \<Rightarrow> string option \<Rightarrow> ServiceAccount list result" where
  "getServiceAccountCredentials E customPath =
     (let filePath = ''service_account.json'';
          filePathFromHome = homeKeyPath E;
          isFile = (keyFiles E filePath \<noteq> None);
          isFileFromHome = (keyFiles E filePathFromHome \<noteq> None);
          isCustomFile = (\<not> falsy customPath \<and> keyFiles E (the customPath) \<noteq> None)
      in if \<not> isFile \<and> \<not> isFileFromHome \<and> \<not> isCustomFile then Exited 1
         else (case keyFiles E (if \<not> falsy customPath \<and> isCustomFile then the customPath
                                else if isFile then filePath else filePathFromHome) of
                 None \<Rightarrow> Thrown ''ENOENT''
               | Some KeyUnparsable \<Rightarrow> Thrown ''SyntaxError''
               | Some (KeyArray key) \<Rightarrow> Ok key
               | Some (KeyObject key) \<Rightarrow> Ok [key]))"

definition loadCredentials :: "env \<Rightarrow> IndexOptions \<Rightarrow> ServiceAccount list result" where
  "loadCredentials E options =
     (if \<not> falsy (opt_client_email options) \<and> \<not> falsy (opt_private_key options)
      then Ok [\<lparr>client_email = the (opt_client_email options),
                private_key = the (opt_private_key options)\<rparr>]
      else getServiceAccountCredentials E (opt_path options))"

text \<open>
  The body of the \<^verbatim>\<open>for\<close> loop over the credentials, with its \<^verbatim>\<open>try\<close>/\<^verbatim>\<open>catch\<close>:
  a throw of the token exchange or of the ownership check is caught and warned about; the
  \<^verbatim>\<open>process.exit\<close> inside \<^verbatim>\<open>getAccessToken\<close> is not an exception and is not caught.
\<close>

definition tryCredential ::
  "env \<Rightarrow> string \<Rightarrow> ServiceAccount \<Rightarrow> string option \<Rightarrow> state \<Rightarrow> string option result \<times> state" where
  "tryCredential E siteUrl cred verifiedSiteUrl s =
     (case getAccessToken E (clock s) (client_email cred) (private_key cred) of
        Exited c \<Rightarrow> (Exited c, s)
      | Thrown msg \<Rightarrow> (Ok verifiedSiteUrl, emit (Warned (client_email cred)) (tick s))
      | Ok tok \<Rightarrow>
          (let s1 = tick s in
           case checkSiteUrl E (clock s1) tok siteUrl of
             Inl msg \<Rightarrow> (Ok verifiedSiteUrl, emit (Warned (client_email cred)) (tick s1))
           | Inr url \<Rightarrow>
               (Ok (if falsy verifiedSiteUrl then Some url else verifiedSiteUrl),
                (tick s1)\<lparr>validCredentials :=
                   validCredentials s1 @ [\<lparr>credential = cred, accessToken = tok\<rparr>]\<rparr>)))"

fun collectCredentials ::
  "env \<Rightarrow> string \<Rightarrow> ServiceAccount list \<Rightarrow> string option \<Rightarrow> state \<Rightarrow> string option result \<times> state" where
  "collectCredentials E siteUrl [] verifiedSiteUrl s = (Ok verifiedSiteUrl, s)"
| "collectCredentials E siteUrl (cred # rest) verifiedSiteUrl s =
     andThen (tryCredential E siteUrl cred verifiedSiteUrl s)
       (\<lambda>v s'. collectCredentials E siteUrl rest v s')"

text \<open>
  The pool: the loop from an empty \<^verbatim>\<open>validCredentials\<close>, then the fatal test. It returns
  the verified site URL; \<^verbatim>\<open>currentAccountIndex\<close> starts at 0.
\<close>

definition buildPool :: "env \<Rightarrow> string \<Rightarrow> ServiceAccount list \<Rightarrow> state \<Rightarrow> string result \<times> state" where
  "buildPool E siteUrl credentials s =
     andThen (collectCredentials E siteUrl credentials None (s\<lparr>validCredentials := []\<rparr>))
       (\<lambda>verifiedSiteUrl s1.
          if length (validCredentials s1) = 0 \<or> falsy verifiedSiteUrl then (Exited 1, s1)
          else (Ok (the verifiedSiteUrl), s1\<lparr>currentAccountIndex := 0\<rparr>))"

text \<open>Page-set resolution: the explicit list when it is not empty, the sitemaps otherwise.\<close>

definition resolvePages ::
  "env \<Rightarrow> string list option \<Rightarrow> string \<Rightarrow> state \<Rightarrow> string list result \<times> state" where
  "resolvePages E explicitUrls siteUrl s =
     (let pages = (case explicitUrls of None \<Rightarrow> [] | Some u \<Rightarrow> u) in
      if length pages = 0 then
        andThen (activeToken s) (\<lambda>tok s0.
          case getSitemapPages E (clock s0) tok siteUrl of
            Inl msg \<Rightarrow> (Thrown msg, tick s0)
          | Inr (sitemaps, pagesFromSitemaps) \<Rightarrow>
              if length sitemaps = 0 then (Exited 1, tick s0)
              else (Ok pagesFromSitemaps, tick s0))
      else (case checkCustomUrls E siteUrl pages of
              Inl msg \<Rightarrow> (Thrown msg, s)
            | Inr pages' \<Rightarrow> (Ok pages', s)))"

text \<open>
  Reading the cache document (an absent file is the empty document) and the fresh
  \<^verbatim>\<open>pagesPerStatus\<close> with an empty list for every status.
\<close>

definition readCache :: "string \<Rightarrow> state \<Rightarrow> unit result \<times> state" where
  "readCache cachePath s =
     (case cacheFiles s cachePath of
        None \<Rightarrow> (Ok (), s\<lparr>statusPerUrl := Map.empty, pagesPerStatus := (\<lambda>_. [])\<rparr>)
      | Some Corrupt \<Rightarrow> (Thrown ''SyntaxError'', s)
      | Some (Doc c) \<Rightarrow> (Ok (), s\<lparr>statusPerUrl := c, pagesPerStatus := (\<lambda>_. [])\<rparr>))"

definition writeCache :: "string \<Rightarrow> state \<Rightarrow> state" where
  "writeCache cachePath s =
     emit (CacheWritten cachePath)
       (s\<lparr>cacheFiles := (cacheFiles s)(cachePath \<mapsto> Doc (statusPerUrl s))\<rparr>)"

text \<open>
  The keys of \<^verbatim>\<open>pagesPerStatus\<close> as \<^verbatim>\<open>Object.entries\<close> lists them: those of the object
  literal in its order, then \<^verbatim>\<open>"undefined"\<close> if the callback added it (its list is empty
  here when it did not).
\<close>

definition statusKeys :: "Status option list" where
  "statusKeys =
     map Some
       [SubmittedAndIndexed, DuplicateWithoutUserSelectedCanonical, CrawledCurrentlyNotIndexed,
        DiscoveredCurrentlyNotIndexed, PageWithRedirect, URLIsUnknownToGoogle, RateLimited,
        Forbidden, Error]
     @ [None]"

definition indexablePagesOf :: "(Status option \<Rightarrow> string list) \<Rightarrow> string list" where
  "indexablePagesOf pps =
     concat (map (\<lambda>key. if key \<in> set (map Some indexableStatuses) then pps key else [])
               statusKeys)"

text \<open>
  \<^verbatim>\<open>path.join\<close> of two parts, with the POSIX separator: the parts that are not empty are
  joined by a separator and the result is normalised. \<open>normalizeString\<close> works on the
  segments between separators: an empty segment and \<^verbatim>\<open>.\<close> are dropped, \<^verbatim>\<open>..\<close> removes the
  segment before it, and stays when there is none to remove and the path is relative.
\<close>

fun normalizeString :: "bool \<Rightarrow> string list \<Rightarrow> string list \<Rightarrow> string list" where
  "normalizeString allowAboveRoot res [] = res"
| "normalizeString allowAboveRoot res (seg # segs) =
     (if seg = [] \<or> seg = ''.'' then normalizeString allowAboveRoot res segs
      else if seg = ''..'' then
        (if res \<noteq> [] \<and> last res \<noteq> ''..'' then normalizeString allowAboveRoot (butlast res) segs
         else if allowAboveRoot then normalizeString allowAboveRoot (res @ [''..'']) segs
         else normalizeString allowAboveRoot res segs)
      else normalizeString allowAboveRoot (res @ [seg]) segs)"

fun joinWith :: "string \<Rightarrow> string list \<Rightarrow> string" where
  "joinWith sep [] = []"
| "joinWith sep [x] = x"
| "joinWith sep (x # y # ys) = x @ sep @ joinWith sep (y # ys)"

definition pathJoin :: "string \<Rightarrow> string \<Rightarrow> string" where
  "pathJoin a b =
     (let joined = (if a = [] then b else if b = [] then a else a @ ''/'' @ b) in
      if joined = [] then ''.''
      else
        let isAbsolute = (hd joined = CHR ''/'');
            trailingSeparator = (last joined = CHR ''/'');
            p = joinWith ''/'' (normalizeString (\<not> isAbsolute) [] (splitOn CHR ''/'' joined))
        in if p = [] then (if isAbsolute then ''/'' else if trailingSeparator then ''./'' else ''.'')
           else (if isAbsolute then ''/'' else []) @ p @ (if trailingSeparator then ''/'' else []))"

definition cachePathOf :: "env \<Rightarrow> string \<Rightarrow> string" where
  "cachePathOf E siteUrl = pathJoin ''.cache'' (convertToFilePath E siteUrl @ ''.json'')"

text \<open>The status-check phase and what follows it, once the pages are known.\<close>

definition statusPhase :: "env \<Rightarrow> string \<Rightarrow> string \<Rightarrow> string list \<Rightarrow> state \<Rightarrow> unit result \<times> state" where
  "statusPhase E cachePath siteUrl pages s =
     andThen (readCache cachePath s) (\<lambda>_ s1.
       andThen (batch (checkPage E siteUrl) pages s1) (\<lambda>_ s2.
         (Ok (), writeCache cachePath s2)))"

text \<open>\<^verbatim>\<open>index\<close>. \<open>input\<close> is the first argument after its default \<^verbatim>\<open>process.argv[2]\<close>.\<close>

definition index ::
  "env \<Rightarrow> ProcessEnv \<Rightarrow> string option \<Rightarrow> IndexOptions \<Rightarrow> state \<Rightarrow> unit result \<times> state" where
  "index E P input options0 s =
     (if falsy input then (Exited 1, s)
      else
        let options = withEnvDefaults P options0 in
        andThen (loadCredentials E options, s) (\<lambda>credentials s.
          let siteUrl = convertToSiteUrl E (the input);
              cachePath = cachePathOf E siteUrl
          in andThen (buildPool E siteUrl credentials s) (\<lambda>siteUrl s.
               andThen (resolvePages E (urls options) siteUrl s) (\<lambda>pages s.
                 andThen (statusPhase E cachePath siteUrl pages s) (\<lambda>_ s.
                   requestPhase E (rpmRetryOf options) (indexablePagesOf (pagesPerStatus s)) s)))))"

section \<open>Observing a trace\<close>

text \<open>The throttle signals: of a status call, and of a probe or a submission.\<close>

definition throttled :: "Status \<Rightarrow> bool" where
  "throttled st = (st = RateLimited \<or> st = Forbidden)"

definition throttleCode :: "int \<Rightarrow> bool" where
  "throttleCode c = (c = 429 \<or> c = 403)"

fun isRotated :: "event \<Rightarrow> bool" where
  "isRotated (Rotated i) = True"
| "isRotated _ = False"

fun isStatusCall :: "event \<Rightarrow> bool" where
  "isStatusCall (StatusCall tok url st) = True"
| "isStatusCall _ = False"

fun isProbeCall :: "event \<Rightarrow> bool" where
  "isProbeCall (ProbeCall tok url retries c) = True"
| "isProbeCall _ = False"

fun isRequestCall :: "event \<Rightarrow> bool" where
  "isRequestCall (RequestCall tok url c) = True"
| "isRequestCall _ = False"

fun isThrottleAnswer :: "event \<Rightarrow> bool" where
  "isThrottleAnswer (StatusCall tok url st) = throttled st"
| "isThrottleAnswer (ProbeCall tok url retries c) = throttleCode c"
| "isThrottleAnswer (RequestCall tok url c) = throttleCode c"
| "isThrottleAnswer _ = False"

text \<open>The submissions of a URL, those answered by a throttle code, and its probes answered 404.\<close>

fun isRequestFor :: "string \<Rightarrow> event \<Rightarrow> bool" where
  "isRequestFor url (RequestCall tok u c) = (u = url)"
| "isRequestFor url _ = False"

fun isThrottledRequestFor :: "string \<Rightarrow> event \<Rightarrow> bool" where
  "isThrottledRequestFor url (RequestCall tok u c) = (u = url \<and> throttleCode c)"
| "isThrottledRequestFor url _ = False"

fun isProbe404For :: "string \<Rightarrow> event \<Rightarrow> bool" where
  "isProbe404For url (ProbeCall tok u retries c) = (u = url \<and> c = 404)"
| "isProbe404For url _ = False"

fun isReportedFor :: "string \<Rightarrow> event \<Rightarrow> bool" where
  "isReportedFor url (Reported u) = (u = url)"
| "isReportedFor url _ = False"

fun isReported :: "event \<Rightarrow> bool" where
  "isReported (Reported url) = True"
| "isReported _ = False"

fun isWarned :: "event \<Rightarrow> bool" where
  "isWarned (Warned email) = True"
| "isWarned _ = False"

fun isCacheWritten :: "event \<Rightarrow> bool" where
  "isCacheWritten (CacheWritten p) = True"
| "isCacheWritten _ = False"

text \<open>The status calls made for one URL.\<close>

fun isStatusCallFor :: "string \<Rightarrow> event \<Rightarrow> bool" where
  "isStatusCallFor url (StatusCall tok u st) = (u = url)"
| "isStatusCallFor url _ = False"

text \<open>A probe or a submission of this URL that was not answered by a throttle code.\<close>

fun isAcceptedCall :: "string \<Rightarrow> event \<Rightarrow> bool" where
  "isAcceptedCall url (ProbeCall tok u retries c) = (u = url \<and> \<not> throttleCode c \<and> c \<noteq> 404)"
| "isAcceptedCall url (RequestCall tok u c) = (u = url \<and> \<not> throttleCode c)"
| "isAcceptedCall url _ = False"

definition occurrences :: "(event \<Rightarrow> bool) \<Rightarrow> event list \<Rightarrow> nat" where
  "occurrences P tr = length (filter P tr)"

text \<open>The answer of the latest status call of a trace.\<close>

fun lastStatus :: "event list \<Rightarrow> Status option" where
  "lastStatus [] = None"
| "lastStatus (e # tr) =
     (case lastStatus tr of
        Some st \<Rightarrow> Some st
      | None \<Rightarrow> (case e of StatusCall tok url st \<Rightarrow> Some st | _ \<Rightarrow> None))"

text \<open>The answer of the latest status call made for one URL.\<close>

definition lastStatusFor :: "string \<Rightarrow> event list \<Rightarrow> Status option" where
  "lastStatusFor url tr = lastStatus (filter (isStatusCallFor url) tr)"

text \<open>
  The trace of \<open>s'\<close> is the trace of \<open>s\<close> followed by events that all satisfy \<open>P\<close>.
\<close>

definition grows :: "(event \<Rightarrow> bool) \<Rightarrow> state \<Rightarrow> state \<Rightarrow> bool" where
  "grows P s s' =
     (take (length (trace s)) (trace s') = trace s
      \<and> list_all P (drop (length (trace s)) (trace s')))"

section \<open>Vocabulary of the properties\<close>

text \<open>A credential without a client email or without a private key.\<close>

definition blank :: "ServiceAccount \<Rightarrow> bool" where
  "blank c = (client_email c = [] \<or> private_key c = [])"

text \<open>
  The collaborators answer the token exchange and the ownership check of a credential the
  same way whenever they are asked.
\<close>

definition steady :: "env \<Rightarrow> bool" where
  "steady E =
     ((\<forall>k email key. authorize E k email key = authorize E 0 email key)
      \<and> (\<forall>k tok site. checkSiteUrl E k tok site = checkSiteUrl E 0 tok site))"

text \<open>The token exchange and the ownership check of this credential both succeed.\<close>

definition verifies :: "env \<Rightarrow> nat \<Rightarrow> string \<Rightarrow> ServiceAccount \<Rightarrow> bool" where
  "verifies E k siteUrl c =
     (case getAccessToken E k (client_email c) (private_key c) of
        Ok tok \<Rightarrow> (case checkSiteUrl E (Suc k) tok siteUrl of Inr url \<Rightarrow> True | Inl msg \<Rightarrow> False)
      | _ \<Rightarrow> False)"

text \<open>
  The part of \<^verbatim>\<open>index\<close> that follows the construction of the pool: page-set resolution,
  the status-check phase and the request phase. It is \<^verbatim>\<open>index\<close> itself once the pool is
  built (lemma \<open>index_fromPool\<close>).
\<close>

definition fromPool :: "env \<Rightarrow> IndexOptions \<Rightarrow> string \<Rightarrow> string \<Rightarrow> state \<Rightarrow> unit result \<times> state" where
  "fromPool E options cachePath siteUrl s =
     andThen (resolvePages E (urls options) siteUrl s) (\<lambda>pages s.
       andThen (statusPhase E cachePath siteUrl pages s) (\<lambda>_ s.
         requestPhase E (rpmRetryOf options) (indexablePagesOf (pagesPerStatus s)) s))"

text \<open>
  The record of \<open>u\<close> in \<open>t\<close> is the one of \<open>s\<close>, or it was stamped between the two states.
\<close>

definition keptOrStamped :: "env \<Rightarrow> state \<Rightarrow> state \<Rightarrow> string \<Rightarrow> bool" where
  "keptOrStamped E s t u =
     (statusPerUrl t u = statusPerUrl s u
      \<or> (\<exists>res k. statusPerUrl t u = Some res \<and> lastCheckedAt res = Some (dateNow E k)
            \<and> clock s \<le> k \<and> k < clock t))"

text \<open>The cache document of a site as a run reads it: empty when there is no file.\<close>

definition cachedDoc :: "state \<Rightarrow> string \<Rightarrow> cache" where
  "cachedDoc s cachePath = (case cacheFiles s cachePath of Some (Doc c) \<Rightarrow> c | _ \<Rightarrow> Map.empty)"

text \<open>
  A record that no reading of the wall clock made at a clock value from \<open>k0\<close> to \<open>k1\<close>
  finds stale, and a record that every such reading finds stale.
\<close>

definition fresh :: "env \<Rightarrow> nat \<Rightarrow> nat \<Rightarrow> PageStatusRecord \<Rightarrow> bool" where
  "fresh E k0 k1 res =
     (\<forall>k\<in>set [k0..<Suc k1]. \<not> shouldRecheck (dateNow E k) (status res) (lastCheckedAt res))"

definition stale :: "env \<Rightarrow> nat \<Rightarrow> nat \<Rightarrow> PageStatusRecord \<Rightarrow> bool" where
  "stale E k0 k1 res =
     (\<forall>k\<in>set [k0..<Suc k1]. shouldRecheck (dateNow E k) (status res) (lastCheckedAt res))"

text \<open>
  What the store \<open>c\<close> holds for a page decides what the callback does with it. The page is
  served from the store, whenever it is looked up between \<open>k0\<close> and \<open>k1\<close>, if the store has
  a fresh record of it or the lookup finds an inherited member; it is due for a live fetch
  if the store has nothing for it or a stale record.
\<close>

definition served :: "env \<Rightarrow> nat \<Rightarrow> nat \<Rightarrow> cache \<Rightarrow> string \<Rightarrow> bool" where
  "served E k0 k1 c u =
     (case getProperty c u of
        Undefined \<Rightarrow> False
      | Inherited \<Rightarrow> True
      | Own res \<Rightarrow> fresh E k0 k1 res)"

definition due :: "env \<Rightarrow> nat \<Rightarrow> nat \<Rightarrow> cache \<Rightarrow> string \<Rightarrow> bool" where
  "due E k0 k1 c u =
     (case getProperty c u of
        Undefined \<Rightarrow> True
      | Inherited \<Rightarrow> False
      | Own res \<Rightarrow> stale E k0 k1 res)"

text \<open>
  The status that the loop of a live fetch for \<open>u\<close> surfaced, as the trace of \<open>t\<close> shows
  it: the answer of the latest status call made for \<open>u\<close>, or \<^verbatim>\<open>Error\<close>, the initial value
  of the loop variable, when there is no session to call with.
\<close>

definition surfaced :: "state \<Rightarrow> string \<Rightarrow> Status \<Rightarrow> bool" where
  "surfaced t u st =
     (if validCredentials t = [] then st = Error else lastStatusFor u (trace t) = Some st)"

text \<open>
  The record of \<open>u\<close> in \<open>t\<close> was written by a live fetch made since the clock value \<open>k0\<close>:
  it holds a time read at a clock value from \<open>k0\<close> on and the status that the fetch
  surfaced.
\<close>

definition stamped :: "env \<Rightarrow> nat \<Rightarrow> state \<Rightarrow> string \<Rightarrow> bool" where
  "stamped E k0 t u =
     (case statusPerUrl t u of
        None \<Rightarrow> False
      | Some res \<Rightarrow>
          (\<exists>k\<in>set [k0..<clock t]. lastCheckedAt res = Some (dateNow E k))
          \<and> surfaced t u (status res))"

text \<open>The key of \<^verbatim>\<open>pagesPerStatus\<close> under which a page is filed when it is served.\<close>

definition filedUnder :: "cache \<Rightarrow> string \<Rightarrow> Status option option" where
  "filedUnder c u =
     (case getProperty c u of
        Undefined \<Rightarrow> None
      | Inherited \<Rightarrow> Some None
      | Own res \<Rightarrow> Some (Some (status res)))"

text \<open>
  Two readings of the wall clock made at clock values from \<open>k0\<close> to \<open>k1\<close> are never further
  apart than the freshness window.
\<close>

definition sameWindow :: "env \<Rightarrow> nat \<Rightarrow> nat \<Rightarrow> bool" where
  "sameWindow E k0 k1 =
     (\<forall>k\<in>set [k0..<Suc k1]. \<forall>k'\<in>set [k0..<Suc k1]. dateNow E k' - CACHE_TIMEOUT \<le> dateNow E k)"

text \<open>
  No page of the list changes sides between \<open>k0\<close> and \<open>k1\<close>: what the store holds for it is
  served throughout or due throughout (no record of a page crosses the freshness window).
\<close>

definition settled :: "env \<Rightarrow> nat \<Rightarrow> nat \<Rightarrow> cache \<Rightarrow> string list \<Rightarrow> bool" where
  "settled E k0 k1 c pages = (\<forall>u\<in>set pages. served E k0 k1 c u \<or> due E k0 k1 c u)"

section \<open>Concrete worlds\<close>

text \<open>
  A small world for the concrete instances below: two service accounts that both
  pass verification, every page indexed, every probe answered 200.
\<close>

definition demoEnv :: env where
  "demoEnv =
     \<lparr>authorize = (\<lambda>k email key. Inr (''token of '' @ email)),
      checkSiteUrl = (\<lambda>k tok site. Inr site),
      getSitemapPages = (\<lambda>k tok site. Inr ([''sitemap.xml''], [''https://a.test/1'', ''https://a.test/2''])),
      checkCustomUrls = (\<lambda>site us. Inr us),
      getPageIndexingStatus = (\<lambda>k tok site url. SubmittedAndIndexed),
      getPublishMetadata = (\<lambda>k tok url retries. 200),
      requestIndexing = (\<lambda>k tok url. 200),
      dateNow = (\<lambda>k. 2000000000),
      convertToSiteUrl = (\<lambda>i. i),
      convertToFilePath = (\<lambda>i. i),
      homeKeyPath = ''/home/u/.gis/service_account.json'',
      keyFiles = Map.empty\<rparr>"

definition accountA :: ServiceAccount where
  "accountA = \<lparr>client_email = ''a@x.test'', private_key = ''key a''\<rparr>"

definition accountB :: ServiceAccount where
  "accountB = \<lparr>client_email = ''b@x.test'', private_key = ''key b''\<rparr>"

definition demoState :: state where
  "demoState =
     \<lparr>clock = 0, cacheFiles = Map.empty, trace = [],
      validCredentials = [\<lparr>credential = accountA, accessToken = ''ta''\<rparr>,
                          \<lparr>credential = accountB, accessToken = ''tb''\<rparr>],
      currentAccountIndex = 0, statusPerUrl = Map.empty, pagesPerStatus = (\<lambda>_. [])\<rparr>"

text \<open>Collaborators that differ from \<open>demoEnv\<close> in the answers named.\<close>

definition throttledEnv :: env where
  "throttledEnv =
     demoEnv\<lparr>getPageIndexingStatus := (\<lambda>k tok site url. RateLimited),
              getPublishMetadata := (\<lambda>k tok url retries. 429)\<rparr>"

definition probe404Env :: env where
  "probe404Env =
     demoEnv\<lparr>getPublishMetadata := (\<lambda>k tok url retries. if k = 0 then 429 else 404)\<rparr>"

definition rejectingEnv :: env where
  "rejectingEnv =
     demoEnv\<lparr>getPublishMetadata := (\<lambda>k tok url retries. 404),
              requestIndexing := (\<lambda>k tok url. 429)\<rparr>"

definition serverErrorEnv :: env where
  "serverErrorEnv = demoEnv\<lparr>getPublishMetadata := (\<lambda>k tok url retries. 500)\<rparr>"

text \<open>
  A call of \<^verbatim>\<open>index\<close> without options and without environment variables, in a world that
  has no cache yet or the cache of an earlier run; the service-account file of the working
  directory lists the given accounts.
\<close>

definition noOptions :: IndexOptions where
  "noOptions = \<lparr>opt_client_email = None, opt_private_key = None, opt_path = None,
                urls = None, quota = None\<rparr>"

definition noVars :: ProcessEnv where
  "noVars = \<lparr>GIS_CLIENT_EMAIL = None, GIS_PRIVATE_KEY = None, GIS_PATH = None,
             GIS_URLS = None, GIS_QUOTA_RPM_RETRY = None\<rparr>"

definition emptyWorld :: state where
  "emptyWorld = demoState\<lparr>validCredentials := []\<rparr>"

definition accountNoKey :: ServiceAccount where
  "accountNoKey = \<lparr>client_email = ''c@x.test'', private_key = []\<rparr>"

definition keyFileEnv :: "ServiceAccount list \<Rightarrow> env" where
  "keyFileEnv cs = demoEnv\<lparr>keyFiles := [''service_account.json'' \<mapsto> KeyArray cs]\<rparr>"

definition partialEnv :: env where
  "partialEnv =
     demoEnv\<lparr>checkSiteUrl :=
       (\<lambda>k tok site. if tok = ''token of b@x.test'' then Inl ''no access'' else Inr site)\<rparr>"

definition noSitemapEnv :: env where
  "noSitemapEnv = (keyFileEnv [accountA])\<lparr>getSitemapPages := (\<lambda>k tok site. Inr ([], []))\<rparr>"

definition rejectUrlsEnv :: env where
  "rejectUrlsEnv = noSitemapEnv\<lparr>checkCustomUrls := (\<lambda>site us. Inr [])\<rparr>"

definition bareSiteEnv :: env where
  "bareSiteEnv =
     (keyFileEnv [accountA, accountB])\<lparr>getSitemapPages := (\<lambda>k tok site. Inr ([], []))\<rparr>"

definition cachedWorld :: state where
  "cachedWorld =
     emptyWorld\<lparr>cacheFiles :=
       [''.cache/a.test.json'' \<mapsto>
          Doc [''https://a.test/1'' \<mapsto> \<lparr>status = SubmittedAndIndexed, lastCheckedAt = Some 5\<rparr>]]\<rparr>"

text \<open>
  A wall clock that advances by one millisecond with every call and every reading. A cache
  document with a record that is not indexable and an indexable record that is long stale,
  and a page list with these two pages, a page without a record and a page named like a
  member of \<^verbatim>\<open>Object.prototype\<close>.
\<close>

definition tickingEnv :: env where
  "tickingEnv = demoEnv\<lparr>dateNow := (\<lambda>k. 2000000000 + int k)\<rparr>"

definition mixedCacheState :: state where
  "mixedCacheState =
     demoState\<lparr>cacheFiles :=
       [''.cache/a.test.json'' \<mapsto>
          Doc [''https://a.test/1'' \<mapsto> \<lparr>status = SubmittedAndIndexed, lastCheckedAt = Some 5\<rparr>,
               ''https://a.test/2'' \<mapsto>
                 \<lparr>status = CrawledCurrentlyNotIndexed, lastCheckedAt = Some 5\<rparr>]]\<rparr>"

definition mixedPages :: "string list" where
  "mixedPages = [''https://a.test/1'', ''https://a.test/2'', ''https://a.test/3'', ''constructor'']"

text \<open>
  The same clock and pages for whole runs: one account, the sitemap lists the pages, and
  every page is crawled but not indexed.
\<close>

definition successionEnv :: env where
  "successionEnv =
     (keyFileEnv [accountA])\<lparr>dateNow := (\<lambda>k. 2000000000 + int k),
        getPageIndexingStatus := (\<lambda>k tok site url. CrawledCurrentlyNotIndexed),
        getSitemapPages := (\<lambda>k tok site. Inr ([''sitemap.xml''], mixedPages))\<rparr>"

definition mixedWorld :: state where
  "mixedWorld = emptyWorld\<lparr>cacheFiles := cacheFiles mixedCacheState\<rparr>"

text \<open>
  One page, whose indexable record is exactly fourteen days old when the first run looks
  at it (at the clock value 3).
\<close>

definition boundaryEnv :: env where
  "boundaryEnv =
     successionEnv\<lparr>getSitemapPages :=
        (\<lambda>k tok site. Inr ([''sitemap.xml''], [''https://a.test/1'']))\<rparr>"

definition boundaryWorld :: state where
  "boundaryWorld =
     emptyWorld\<lparr>cacheFiles :=
       [''.cache/a.test.json'' \<mapsto>
          Doc [''https://a.test/1'' \<mapsto>
                 \<lparr>status = CrawledCurrentlyNotIndexed,
                  lastCheckedAt = Some (2000000003 - CACHE_TIMEOUT)\<rparr>]]\<rparr>"

section \<open>Traces and sequencing\<close>

declare statusLoop.simps [simp del]
declare requestLoop.simps [simp del]

lemma occurrences_simps [simp]:
  "occurrences P [] = 0"
  "occurrences P (tr @ tr') = occurrences P tr + occurrences P tr'"
  "occurrences P (e # tr) = (if P e then Suc (occurrences P tr) else occurrences P tr)"
  by (simp_all add: occurrences_def)

lemma lastStatus_append [simp]:
  "lastStatus (tr @ tr') = (case lastStatus tr' of Some st \<Rightarrow> Some st | None \<Rightarrow> lastStatus tr)"
  by (induction tr) (auto split: option.splits event.splits)

lemma state_simps [simp]:
  "trace (tick s) = trace s" "clock (tick s) = Suc (clock s)"
  "validCredentials (tick s) = validCredentials s"
  "currentAccountIndex (tick s) = currentAccountIndex s"
  "statusPerUrl (tick s) = statusPerUrl s" "pagesPerStatus (tick s) = pagesPerStatus s"
  "cacheFiles (tick s) = cacheFiles s"
  "trace (emit e s) = trace s @ [e]" "clock (emit e s) = clock s"
  "validCredentials (emit e s) = validCredentials s"
  "currentAccountIndex (emit e s) = currentAccountIndex s"
  "statusPerUrl (emit e s) = statusPerUrl s" "pagesPerStatus (emit e s) = pagesPerStatus s"
  "cacheFiles (emit e s) = cacheFiles s"
  by (simp_all add: tick_def emit_def)

lemma rotateAccount_effect:
  assumes "rotateAccount E s = (r, s')" and "rc < length (validCredentials s)"
  shows "trace s' = trace s @ [Rotated (currentAccountIndex s')]"
    and "length (validCredentials s') = length (validCredentials s)"
    and "currentAccountIndex s' < length (validCredentials s')"
    and "statusPerUrl s' = statusPerUrl s"
    and "pagesPerStatus s' = pagesPerStatus s"
    and "cacheFiles s' = cacheFiles s"
    and "clock s \<le> clock s'"
  using assms
  by (auto simp: rotateAccount_def Let_def split: result.splits if_splits)

lemma andThen_simps [simp]:
  "andThen (Ok x, s) f = f x s"
  "andThen (Thrown msg, s) f = (Thrown msg, s)"
  "andThen (Exited c, s) f = (Exited c, s)"
  by (simp_all add: andThen_def)

text \<open>One iteration of the status loop.\<close>

lemma statusLoop_stop:
  "\<not> rc < length (validCredentials s) \<Longrightarrow> statusLoop E siteUrl url st rc s = (Ok st, s)"
  by (subst statusLoop.simps) simp

lemma statusLoop_range:
  "rc < length (validCredentials s) \<Longrightarrow> \<not> currentAccountIndex s < length (validCredentials s) \<Longrightarrow>
   statusLoop E siteUrl url st rc s = (Thrown ''TypeError'', s)"
  by (subst statusLoop.simps) (simp add: activeToken_def)

lemma statusLoop_step:
  "rc < length (validCredentials s) \<Longrightarrow> currentAccountIndex s < length (validCredentials s) \<Longrightarrow>
   tok = accessToken (validCredentials s ! currentAccountIndex s) \<Longrightarrow>
   st' = getPageIndexingStatus E (clock s) tok siteUrl url \<Longrightarrow>
   statusLoop E siteUrl url st rc s =
     (if throttled st'
      then andThen (rotateAccount E (tick (emit (StatusCall tok url st') s)))
             (\<lambda>_ s2. statusLoop E siteUrl url st' (Suc rc) s2)
      else (Ok st', tick (emit (StatusCall tok url st') s)))"
  by (subst statusLoop.simps) (auto simp: activeToken_def Let_def throttled_def)

lemma statusLoop_cases:
  assumes "statusLoop E siteUrl url st rc s = (r, s')"
  obtains
    (stop) "\<not> rc < length (validCredentials s)" "r = Ok st" "s' = s"
  | (outside) "rc < length (validCredentials s)"
      "\<not> currentAccountIndex s < length (validCredentials s)" "r = Thrown ''TypeError''" "s' = s"
  | (answer) tok st' where "rc < length (validCredentials s)"
      "currentAccountIndex s < length (validCredentials s)"
      "tok = accessToken (validCredentials s ! currentAccountIndex s)"
      "st' = getPageIndexingStatus E (clock s) tok siteUrl url"
      "\<not> throttled st'" "r = Ok st'" "s' = tick (emit (StatusCall tok url st') s)"
  | (failed) tok st' r0 where "rc < length (validCredentials s)"
      "currentAccountIndex s < length (validCredentials s)"
      "tok = accessToken (validCredentials s ! currentAccountIndex s)"
      "st' = getPageIndexingStatus E (clock s) tok siteUrl url"
      "throttled st'" "rotateAccount E (tick (emit (StatusCall tok url st') s)) = (r0, s')"
      "\<forall>x. r0 \<noteq> Ok x" "\<forall>x. r \<noteq> Ok x"
  | (retry) tok st' x s2 where "rc < length (validCredentials s)"
      "currentAccountIndex s < length (validCredentials s)"
      "tok = accessToken (validCredentials s ! currentAccountIndex s)"
      "st' = getPageIndexingStatus E (clock s) tok siteUrl url"
      "throttled st'" "rotateAccount E (tick (emit (StatusCall tok url st') s)) = (Ok x, s2)"
      "statusLoop E siteUrl url st' (Suc rc) s2 = (r, s')"
proof (cases "rc < length (validCredentials s)")
  case False
  from assms have "r = Ok st" "s' = s"
    by (simp_all add: statusLoop_stop[OF False])
  with False show ?thesis by (rule stop)
next
  case budget: True
  show ?thesis
  proof (cases "currentAccountIndex s < length (validCredentials s)")
    case False
    from assms have "r = Thrown ''TypeError''" "s' = s"
      by (simp_all add: statusLoop_range[OF budget False])
    with budget False show ?thesis by (rule outside)
  next
    case idx: True
    define tok where "tok = accessToken (validCredentials s ! currentAccountIndex s)"
    define st' where "st' = getPageIndexingStatus E (clock s) tok siteUrl url"
    define s1 where "s1 = tick (emit (StatusCall tok url st') s)"
    note step = statusLoop_step[OF budget idx tok_def st'_def, of st]
    show ?thesis
    proof (cases "throttled st'")
      case False
      with assms step have "r = Ok st'" "s' = tick (emit (StatusCall tok url st') s)"
        by simp_all
      with budget idx tok_def st'_def False show ?thesis by (rule answer)
    next
      case thr: True
      with assms step
      have eq: "andThen (rotateAccount E s1) (\<lambda>_ s2. statusLoop E siteUrl url st' (Suc rc) s2) = (r, s')"
        by (simp add: s1_def)
      obtain r0 s2 where rot: "rotateAccount E s1 = (r0, s2)"
        by (cases "rotateAccount E s1")
      show ?thesis
      proof (cases r0)
        case (Ok x)
        with eq rot have "statusLoop E siteUrl url st' (Suc rc) s2 = (r, s')"
          by (simp add: andThen_def)
        with budget idx tok_def st'_def thr rot[unfolded s1_def Ok] show ?thesis
          by (rule retry)
      next
        case (Thrown msg)
        with eq rot have *: "r = Thrown msg" "s' = s2" by (auto simp: andThen_def)
        show ?thesis
          by (rule failed[OF budget idx tok_def st'_def thr, of r0])
             (use rot * Thrown in \<open>simp_all add: s1_def\<close>)
      next
        case (Exited c)
        with eq rot have *: "r = Exited c" "s' = s2" by (auto simp: andThen_def)
        show ?thesis
          by (rule failed[OF budget idx tok_def st'_def thr, of r0])
             (use rot * Exited in \<open>simp_all add: s1_def\<close>)
      qed
    qed
  qed
qed

lemma statusLoop_induct [consumes 1, case_names stop outside answer failed retry]:
  assumes run: "statusLoop E siteUrl url st rc s = (r, s')"
    and stop: "\<And>st rc s. \<not> rc < length (validCredentials s) \<Longrightarrow> P st rc s (Ok st) s"
    and outside: "\<And>st rc s. rc < length (validCredentials s) \<Longrightarrow>
        \<not> currentAccountIndex s < length (validCredentials s) \<Longrightarrow> P st rc s (Thrown ''TypeError'') s"
    and answer: "\<And>st rc s tok st'. rc < length (validCredentials s) \<Longrightarrow>
        currentAccountIndex s < length (validCredentials s) \<Longrightarrow>
        tok = accessToken (validCredentials s ! currentAccountIndex s) \<Longrightarrow>
        st' = getPageIndexingStatus E (clock s) tok siteUrl url \<Longrightarrow> \<not> throttled st' \<Longrightarrow>
        P st rc s (Ok st') (tick (emit (StatusCall tok url st') s))"
    and failed: "\<And>st rc s tok st' r0 r s'. rc < length (validCredentials s) \<Longrightarrow>
        currentAccountIndex s < length (validCredentials s) \<Longrightarrow>
        tok = accessToken (validCredentials s ! currentAccountIndex s) \<Longrightarrow>
        st' = getPageIndexingStatus E (clock s) tok siteUrl url \<Longrightarrow> throttled st' \<Longrightarrow>
        rotateAccount E (tick (emit (StatusCall tok url st') s)) = (r0, s') \<Longrightarrow>
        \<forall>x. r0 \<noteq> Ok x \<Longrightarrow> \<forall>x. r \<noteq> Ok x \<Longrightarrow> P st rc s r s'"
    and retry: "\<And>st rc s tok st' x s2 r s'. rc < length (validCredentials s) \<Longrightarrow>
        currentAccountIndex s < length (validCredentials s) \<Longrightarrow>
        tok = accessToken (validCredentials s ! currentAccountIndex s) \<Longrightarrow>
        st' = getPageIndexingStatus E (clock s) tok siteUrl url \<Longrightarrow> throttled st' \<Longrightarrow>
        rotateAccount E (tick (emit (StatusCall tok url st') s)) = (Ok x, s2) \<Longrightarrow>
        statusLoop E siteUrl url st' (Suc rc) s2 = (r, s') \<Longrightarrow>
        P st' (Suc rc) s2 r s' \<Longrightarrow> P st rc s r s'"
  shows "P st rc s r s'"
  using run
proof (induction "length (validCredentials s) - rc" arbitrary: st rc s rule: less_induct)
  case less
  from less.prems show ?case
  proof (cases rule: statusLoop_cases)
    case stop
    show ?thesis unfolding stop(2,3) by (rule assms(2)[OF stop(1)])
  next
    case outside
    show ?thesis unfolding outside(3,4) by (rule assms(3)[OF outside(1,2)])
  next
    case (answer tok st')
    show ?thesis unfolding answer(6,7) by (rule assms(4)[OF answer(1-5)])
  next
    case (failed tok st' r0)
    show ?thesis by (rule assms(5)[OF failed])
  next
    case (retry tok st' x s2)
    have "length (validCredentials s2) = length (validCredentials s)"
      using rotateAccount_length[OF retry(6)] by simp
    with retry(1) have "length (validCredentials s2) - Suc rc < length (validCredentials s) - rc"
      by simp
    from less.hyps[OF this retry(7)] show ?thesis
      by (rule assms(6)[OF retry])
  qed
qed

lemma statusLoop_length:
  "statusLoop E siteUrl url st rc s = (r, s') \<Longrightarrow>
   length (validCredentials s') = length (validCredentials s)"
  by (induction rule: statusLoop_induct) (auto dest: rotateAccount_length)


text \<open>One iteration of the request loop.\<close>

lemma requestLoop_stop:
  "\<not> rc < length (validCredentials s) \<Longrightarrow> requestLoop E rpmRetry url rc s = (Ok False, s)"
  by (subst requestLoop.simps) simp

lemma requestLoop_range:
  "rc < length (validCredentials s) \<Longrightarrow> \<not> currentAccountIndex s < length (validCredentials s) \<Longrightarrow>
   requestLoop E rpmRetry url rc s = (Thrown ''TypeError'', s)"
  by (subst requestLoop.simps) (simp add: activeToken_def)

lemma requestLoop_step:
  "rc < length (validCredentials s) \<Longrightarrow> currentAccountIndex s < length (validCredentials s) \<Longrightarrow>
   tok = accessToken (validCredentials s ! currentAccountIndex s) \<Longrightarrow>
   retries = (if rpmRetry then QUOTA_rpm_retries else 0) \<Longrightarrow>
   code = getPublishMetadata E (clock s) tok url retries \<Longrightarrow>
   s1 = tick (emit (ProbeCall tok url retries code) s) \<Longrightarrow>
   requestStatus = requestIndexing E (clock s1) tok url \<Longrightarrow>
   s2 = tick (emit (RequestCall tok url requestStatus) s1) \<Longrightarrow>
   requestLoop E rpmRetry url rc s =
     (if throttleCode code
      then andThen (rotateAccount E s1) (\<lambda>_ s3. requestLoop E rpmRetry url (Suc rc) s3)
      else if code = 404 then
        (if throttleCode requestStatus
         then andThen (rotateAccount E s2) (\<lambda>_ s3. requestLoop E rpmRetry url (Suc rc) s3)
         else (Ok True, s2))
      else (Ok True, s1))"
  by (subst requestLoop.simps) (simp add: activeToken_def Let_def throttleCode_def)

lemma andThen_cases:
  assumes "andThen m f = (r, s')"
  obtains (continue) x s1 where "m = (Ok x, s1)" "f x s1 = (r, s')"
  | (abort) r0 where "m = (r0, s')" "\<forall>x. r0 \<noteq> Ok x" "\<forall>x. r \<noteq> Ok x"
proof (cases m)
  case (Pair r0 s1)
  show ?thesis
  proof (cases r0)
    case (Ok x)
    with Pair assms have "m = (Ok x, s1)" "f x s1 = (r, s')"
      by simp_all
    then show ?thesis by (rule continue)
  next
    case (Thrown msg)
    with Pair assms have "m = (r0, s')" "\<forall>x. r0 \<noteq> Ok x" "\<forall>x. r \<noteq> Ok x"
      by auto
    then show ?thesis by (rule abort)
  next
    case (Exited c)
    with Pair assms have "m = (r0, s')" "\<forall>x. r0 \<noteq> Ok x" "\<forall>x. r \<noteq> Ok x"
      by auto
    then show ?thesis by (rule abort)
  qed
qed

lemma requestLoop_cases:
  assumes "requestLoop E rpmRetry url rc s = (r, s')"
  obtains
    (stop) "\<not> rc < length (validCredentials s)" "r = Ok False" "s' = s"
  | (outside) "rc < length (validCredentials s)"
      "\<not> currentAccountIndex s < length (validCredentials s)" "r = Thrown ''TypeError''" "s' = s"
  | (accepted) tok retries code where "rc < length (validCredentials s)"
      "currentAccountIndex s < length (validCredentials s)"
      "tok = accessToken (validCredentials s ! currentAccountIndex s)"
      "retries = (if rpmRetry then QUOTA_rpm_retries else 0)"
      "code = getPublishMetadata E (clock s) tok url retries"
      "\<not> throttleCode code" "code \<noteq> 404" "r = Ok True"
      "s' = tick (emit (ProbeCall tok url retries code) s)"
  | (submitted) tok retries s1 requestStatus where "rc < length (validCredentials s)"
      "currentAccountIndex s < length (validCredentials s)"
      "tok = accessToken (validCredentials s ! currentAccountIndex s)"
      "retries = (if rpmRetry then QUOTA_rpm_retries else 0)"
      "getPublishMetadata E (clock s) tok url retries = 404"
      "s1 = tick (emit (ProbeCall tok url retries 404) s)"
      "requestStatus = requestIndexing E (clock s1) tok url"
      "\<not> throttleCode requestStatus" "r = Ok True"
      "s' = tick (emit (RequestCall tok url requestStatus) s1)"
  | (failed) sr evs r0 where "rc < length (validCredentials s)"
      "currentAccountIndex s < length (validCredentials s)"
      "trace sr = trace s @ evs" "validCredentials sr = validCredentials s"
      "currentAccountIndex sr = currentAccountIndex s"
      "statusPerUrl sr = statusPerUrl s" "pagesPerStatus sr = pagesPerStatus s"
      "cacheFiles sr = cacheFiles s" "clock s \<le> clock sr"
      "(\<exists>tok retries code. evs = [ProbeCall tok url retries code] \<and> throttleCode code) \<or>
       (\<exists>tok retries requestStatus. evs = [ProbeCall tok url retries 404, RequestCall tok url requestStatus]
           \<and> throttleCode requestStatus)"
      "rotateAccount E sr = (r0, s')" "\<forall>x. r0 \<noteq> Ok x" "\<forall>x. r \<noteq> Ok x"
  | (retry) sr evs x s2 where "rc < length (validCredentials s)"
      "currentAccountIndex s < length (validCredentials s)"
      "trace sr = trace s @ evs" "validCredentials sr = validCredentials s"
      "currentAccountIndex sr = currentAccountIndex s"
      "statusPerUrl sr = statusPerUrl s" "pagesPerStatus sr = pagesPerStatus s"
      "cacheFiles sr = cacheFiles s" "clock s \<le> clock sr"
      "(\<exists>tok retries code. evs = [ProbeCall tok url retries code] \<and> throttleCode code) \<or>
       (\<exists>tok retries requestStatus. evs = [ProbeCall tok url retries 404, RequestCall tok url requestStatus]
           \<and> throttleCode requestStatus)"
      "rotateAccount E sr = (Ok x, s2)"
      "requestLoop E rpmRetry url (Suc rc) s2 = (r, s')"
proof (cases "rc < length (validCredentials s)")
  case False
  from assms have "r = Ok False" "s' = s"
    by (simp_all add: requestLoop_stop[OF False])
  with False show ?thesis by (rule stop)
next
  case budget: True
  show ?thesis
  proof (cases "currentAccountIndex s < length (validCredentials s)")
    case False
    from assms have "r = Thrown ''TypeError''" "s' = s"
      by (simp_all add: requestLoop_range[OF budget False])
    with budget False show ?thesis by (rule outside)
  next
    case idx: True
    define tok where "tok = accessToken (validCredentials s ! currentAccountIndex s)"
    define retries where "retries = (if rpmRetry then QUOTA_rpm_retries else 0)"
    define code where "code = getPublishMetadata E (clock s) tok url retries"
    define s1 where "s1 = tick (emit (ProbeCall tok url retries code) s)"
    define requestStatus where "requestStatus = requestIndexing E (clock s1) tok url"
    define s2 where "s2 = tick (emit (RequestCall tok url requestStatus) s1)"
    note step = requestLoop_step[OF budget idx tok_def retries_def code_def s1_def
        requestStatus_def s2_def]
    consider (a) "throttleCode code"
      | (b) "\<not> throttleCode code" "code = 404" "throttleCode requestStatus"
      | (c) "\<not> throttleCode code" "code = 404" "\<not> throttleCode requestStatus"
      | (d) "\<not> throttleCode code" "code \<noteq> 404"
      by blast
    then show ?thesis
    proof cases
      case a
      with assms step
      have eq: "andThen (rotateAccount E s1) (\<lambda>_ s3. requestLoop E rpmRetry url (Suc rc) s3) = (r, s')"
        by simp
      have ev: "(\<exists>tok' retries' code'. [ProbeCall tok url retries code] = [ProbeCall tok' url retries' code']
                    \<and> throttleCode code') \<or>
         (\<exists>tok' retries' requestStatus'. [ProbeCall tok url retries code] =
              [ProbeCall tok' url retries' 404, RequestCall tok' url requestStatus']
           \<and> throttleCode requestStatus')"
        using a by simp
      from eq show ?thesis
      proof (cases rule: andThen_cases)
        case (continue x s3)
        show ?thesis
          by (rule retry[OF budget idx _ _ _ _ _ _ _ ev continue(1) continue(2)])
             (simp_all add: s1_def)
      next
        case (abort r0)
        show ?thesis
          by (rule failed[OF budget idx _ _ _ _ _ _ _ ev abort(1) abort(2) abort(3)])
             (simp_all add: s1_def)
      qed
    next
      case b
      with assms step
      have eq: "andThen (rotateAccount E s2) (\<lambda>_ s3. requestLoop E rpmRetry url (Suc rc) s3) = (r, s')"
        by simp
      have ev: "(\<exists>tok' retries' code'. [ProbeCall tok url retries 404, RequestCall tok url requestStatus]
                     = [ProbeCall tok' url retries' code'] \<and> throttleCode code') \<or>
         (\<exists>tok' retries' requestStatus'. [ProbeCall tok url retries 404, RequestCall tok url requestStatus] =
              [ProbeCall tok' url retries' 404, RequestCall tok' url requestStatus']
           \<and> throttleCode requestStatus')"
        using b by simp
      from eq show ?thesis
      proof (cases rule: andThen_cases)
        case (continue x s3)
        show ?thesis
          by (rule retry[OF budget idx _ _ _ _ _ _ _ ev continue(1) continue(2)])
             (use b in \<open>simp_all add: s1_def s2_def\<close>)
      next
        case (abort r0)
        show ?thesis
          by (rule failed[OF budget idx _ _ _ _ _ _ _ ev abort(1) abort(2) abort(3)])
             (use b in \<open>simp_all add: s1_def s2_def\<close>)
      qed
    next
      case c
      with assms step have res: "r = Ok True" "s' = tick (emit (RequestCall tok url requestStatus) s1)"
        by (simp_all add: s2_def)
      from c have probe: "getPublishMetadata E (clock s) tok url retries = 404"
        and s1: "s1 = tick (emit (ProbeCall tok url retries 404) s)"
        by (simp_all add: code_def s1_def)
      show ?thesis
        by (rule submitted[OF budget idx tok_def retries_def probe s1 requestStatus_def c(3) res])
    next
      case d
      with assms step have res: "r = Ok True" "s' = tick (emit (ProbeCall tok url retries code) s)"
        by (simp_all add: s1_def)
      show ?thesis
        by (rule accepted[OF budget idx tok_def retries_def code_def d res])
    qed
  qed
qed

lemma requestLoop_induct [consumes 1, case_names stop outside accepted submitted failed retry]:
  assumes run: "requestLoop E rpmRetry url rc s = (r, s')"
    and "\<And>rc s. \<not> rc < length (validCredentials s) \<Longrightarrow> P rc s (Ok False) s"
    and "\<And>rc s. rc < length (validCredentials s) \<Longrightarrow>
        \<not> currentAccountIndex s < length (validCredentials s) \<Longrightarrow> P rc s (Thrown ''TypeError'') s"
    and "\<And>rc s tok retries code. rc < length (validCredentials s) \<Longrightarrow>
        currentAccountIndex s < length (validCredentials s) \<Longrightarrow>
        tok = accessToken (validCredentials s ! currentAccountIndex s) \<Longrightarrow>
        retries = (if rpmRetry then QUOTA_rpm_retries else 0) \<Longrightarrow>
        code = getPublishMetadata E (clock s) tok url retries \<Longrightarrow>
        \<not> throttleCode code \<Longrightarrow> code \<noteq> 404 \<Longrightarrow>
        P rc s (Ok True) (tick (emit (ProbeCall tok url retries code) s))"
    and "\<And>rc s tok retries s1 requestStatus. rc < length (validCredentials s) \<Longrightarrow>
        currentAccountIndex s < length (validCredentials s) \<Longrightarrow>
        tok = accessToken (validCredentials s ! currentAccountIndex s) \<Longrightarrow>
        retries = (if rpmRetry then QUOTA_rpm_retries else 0) \<Longrightarrow>
        getPublishMetadata E (clock s) tok url retries = 404 \<Longrightarrow>
        s1 = tick (emit (ProbeCall tok url retries 404) s) \<Longrightarrow>
        requestStatus = requestIndexing E (clock s1) tok url \<Longrightarrow>
        \<not> throttleCode requestStatus \<Longrightarrow>
        P rc s (Ok True) (tick (emit (RequestCall tok url requestStatus) s1))"
    and "\<And>rc s sr evs r0 r s'. rc < length (validCredentials s) \<Longrightarrow>
        currentAccountIndex s < length (validCredentials s) \<Longrightarrow>
        trace sr = trace s @ evs \<Longrightarrow> validCredentials sr = validCredentials s \<Longrightarrow>
        currentAccountIndex sr = currentAccountIndex s \<Longrightarrow>
        statusPerUrl sr = statusPerUrl s \<Longrightarrow> pagesPerStatus sr = pagesPerStatus s \<Longrightarrow>
        cacheFiles sr = cacheFiles s \<Longrightarrow> clock s \<le> clock sr \<Longrightarrow>
        (\<exists>tok retries code. evs = [ProbeCall tok url retries code] \<and> throttleCode code) \<or>
        (\<exists>tok retries requestStatus.
            evs = [ProbeCall tok url retries 404, RequestCall tok url requestStatus]
            \<and> throttleCode requestStatus) \<Longrightarrow>
        rotateAccount E sr = (r0, s') \<Longrightarrow> \<forall>x. r0 \<noteq> Ok x \<Longrightarrow> \<forall>x. r \<noteq> Ok x \<Longrightarrow> P rc s r s'"
    and "\<And>rc s sr evs x s2 r s'. rc < length (validCredentials s) \<Longrightarrow>
        currentAccountIndex s < length (validCredentials s) \<Longrightarrow>
        trace sr = trace s @ evs \<Longrightarrow> validCredentials sr = validCredentials s \<Longrightarrow>
        currentAccountIndex sr = currentAccountIndex s \<Longrightarrow>
        statusPerUrl sr = statusPerUrl s \<Longrightarrow> pagesPerStatus sr = pagesPerStatus s \<Longrightarrow>
        cacheFiles sr = cacheFiles s \<Longrightarrow> clock s \<le> clock sr \<Longrightarrow>
        (\<exists>tok retries code. evs = [ProbeCall tok url retries code] \<and> throttleCode code) \<or>
        (\<exists>tok retries requestStatus.
            evs = [ProbeCall tok url retries 404, RequestCall tok url requestStatus]
            \<and> throttleCode requestStatus) \<Longrightarrow>
        rotateAccount E sr = (Ok x, s2) \<Longrightarrow>
        requestLoop E rpmRetry url (Suc rc) s2 = (r, s') \<Longrightarrow>
        P (Suc rc) s2 r s' \<Longrightarrow> P rc s r s'"
  shows "P rc s r s'"
  using run
proof (induction "length (validCredentials s) - rc" arbitrary: rc s rule: less_induct)
  case less
  from less.prems show ?case
  proof (cases rule: requestLoop_cases)
    case stop
    show ?thesis unfolding stop(2,3) by (rule assms(2)[OF stop(1)])
  next
    case outside
    show ?thesis unfolding outside(3,4) by (rule assms(3)[OF outside(1,2)])
  next
    case (accepted tok retries code)
    show ?thesis unfolding accepted(8,9) by (rule assms(4)[OF accepted(1-7)])
  next
    case (submitted tok retries s1 requestStatus)
    show ?thesis unfolding submitted(9,10) by (rule assms(5)[OF submitted(1-8)])
  next
    case (failed sr evs r0)
    show ?thesis
      by (rule assms(6)[OF failed])
  next
    case (retry sr evs x s2)
    have "length (validCredentials s2) = length (validCredentials s)"
      using rotateAccount_length[OF retry(11)] retry(4) by simp
    with retry(1) have "length (validCredentials s2) - Suc rc < length (validCredentials s) - rc"
      by simp
    from less.hyps[OF this retry(12)] show ?thesis
      by (rule assms(7)[OF retry])
  qed
qed


lemma growsI:
  "trace s' = trace s @ evs \<Longrightarrow> list_all P evs \<Longrightarrow> grows P s s'"
  by (simp add: grows_def)

lemma growsD:
  "grows P s s' \<Longrightarrow> \<exists>evs. trace s' = trace s @ evs \<and> list_all P evs"
  unfolding grows_def by (metis append_take_drop_id)

lemma grows_refl [simp]: "grows P s s"
  by (simp add: grows_def)

lemma grows_same: "trace s' = trace s \<Longrightarrow> grows P s s'"
  by (simp add: grows_def)

lemma grows_trans: "grows P s s1 \<Longrightarrow> grows P s1 s2 \<Longrightarrow> grows P s s2"
proof -
  assume "grows P s s1" and "grows P s1 s2"
  then obtain evs evs' where "trace s1 = trace s @ evs" "list_all P evs"
    "trace s2 = trace s1 @ evs'" "list_all P evs'"
    by (blast dest: growsD)
  then show ?thesis
    by (intro growsI[of _ _ "evs @ evs'"]) simp_all
qed

lemma grows_mono: "grows P s s' \<Longrightarrow> (\<And>e. P e \<Longrightarrow> Q e) \<Longrightarrow> grows Q s s'"
  by (auto simp: grows_def list_all_iff)

lemma grows_occurrences:
  assumes "grows P s s'" and "\<And>e. P e \<Longrightarrow> \<not> Q e"
  shows "occurrences Q (trace s') = occurrences Q (trace s)"
proof -
  from assms(1) obtain evs where "trace s' = trace s @ evs" "list_all P evs"
    by (blast dest: growsD)
  moreover from this assms(2) have "filter Q evs = []"
    by (auto simp: list_all_iff filter_empty_conv)
  ultimately show ?thesis by (simp add: occurrences_def)
qed

lemma grows_tick_emit [simp]:
  "grows P s (tick (emit e s)) = P e" "grows P s (emit e s) = P e" "grows P s (tick s)"
  by (simp_all add: grows_def)

lemma rotateAccount_grows:
  "rotateAccount E s = (r, s') \<Longrightarrow> grows isRotated s s'"
  by (auto simp: rotateAccount_def Let_def grows_def split: result.splits if_splits)

lemma rotateAccount_frame:
  assumes "rotateAccount E s = (r, s')"
  shows "statusPerUrl s' = statusPerUrl s" "pagesPerStatus s' = pagesPerStatus s"
    "cacheFiles s' = cacheFiles s" "clock s \<le> clock s'"
    "map credential (validCredentials s') = map credential (validCredentials s)"
  using assms
  by (auto simp: rotateAccount_def Let_def map_update list_update_same_conv
      split: result.splits if_splits)

subsection \<open>The status loop\<close>

lemma statusLoop_grows:
  "statusLoop E siteUrl url st rc s = (r, s') \<Longrightarrow> grows (\<lambda>e. isStatusCall e \<or> isRotated e) s s'"
proof (induction rule: statusLoop_induct)
  case (failed st rc s tok st' r0 r s')
  have "grows (\<lambda>e. isStatusCall e \<or> isRotated e) s (tick (emit (StatusCall tok url st') s))"
    by simp
  moreover have "grows (\<lambda>e. isStatusCall e \<or> isRotated e) (tick (emit (StatusCall tok url st') s)) s'"
    using rotateAccount_grows[OF failed(6)] by (rule grows_mono) simp
  ultimately show ?case by (rule grows_trans)
next
  case (retry st rc s tok st' x s2 r s')
  have "grows (\<lambda>e. isStatusCall e \<or> isRotated e) s (tick (emit (StatusCall tok url st') s))"
    by simp
  moreover have "grows (\<lambda>e. isStatusCall e \<or> isRotated e) (tick (emit (StatusCall tok url st') s)) s2"
    using rotateAccount_grows[OF retry(6)] by (rule grows_mono) simp
  ultimately show ?case using retry(8) by (blast intro: grows_trans)
qed simp_all

lemma statusLoop_frame:
  assumes "statusLoop E siteUrl url st rc s = (r, s')"
  shows "statusPerUrl s' = statusPerUrl s \<and> pagesPerStatus s' = pagesPerStatus s
    \<and> cacheFiles s' = cacheFiles s \<and> clock s \<le> clock s'
    \<and> map credential (validCredentials s') = map credential (validCredentials s)"
  using assms
proof (induction rule: statusLoop_induct)
  case (failed st rc s tok st' r0 r s')
  then show ?case using rotateAccount_frame[OF failed(6)] by simp
next
  case (retry st rc s tok st' x s2 r s')
  then show ?case using rotateAccount_frame[OF retry(6)] by simp
qed simp_all

lemma statusLoop_index:
  assumes "statusLoop E siteUrl url st rc s = (r, s')"
    and "currentAccountIndex s < length (validCredentials s)"
  shows "currentAccountIndex s' < length (validCredentials s')"
  using assms
proof (induction rule: statusLoop_induct)
  case (failed st rc s tok st' r0 r s')
  then show ?case using rotateAccount_effect(3)[OF failed(6), of rc] by simp
next
  case (retry st rc s tok st' x s2 r s')
  then show ?case using rotateAccount_effect(3)[OF retry(6), of rc] by simp
qed simp_all



lemma statusLoop_surfaced:
  assumes "statusLoop E siteUrl url st rc s = (r, s')" and "r = Ok st'"
  shows "(rc < length (validCredentials s) \<longrightarrow> lastStatus (trace s') = Some st')
    \<and> (\<not> rc < length (validCredentials s) \<longrightarrow> st' = st \<and> s' = s)"
  using assms
proof (induction arbitrary: st' rule: statusLoop_induct)
  case (retry st rc s tok st0 x s2 r s')
  show ?case
  proof (cases "Suc rc < length (validCredentials s2)")
    case True
    with retry show ?thesis by simp
  next
    case False
    with retry(8)[OF retry(9)] have "st' = st0" "s' = s2" by simp_all
    with retry(1) show ?thesis
      using rotateAccount_effect(1)[OF retry(6), of rc] by simp
  qed
qed auto



subsection \<open>The request loop\<close>

lemma requestLoop_grows:
  "requestLoop E rpmRetry url rc s = (r, s') \<Longrightarrow>
   grows (\<lambda>e. isProbeCall e \<or> isRequestCall e \<or> isRotated e) s s'"
proof (induction rule: requestLoop_induct)
  case (failed rc s sr evs r0 r s')
  have "grows (\<lambda>e. isProbeCall e \<or> isRequestCall e \<or> isRotated e) s sr"
    using failed(3,10) by (intro growsI[of sr s evs]) auto
  moreover have "grows (\<lambda>e. isProbeCall e \<or> isRequestCall e \<or> isRotated e) sr s'"
    using rotateAccount_grows[OF failed(11)] by (rule grows_mono) simp
  ultimately show ?case by (rule grows_trans)
next
  case (retry rc s sr evs x s2 r s')
  have "grows (\<lambda>e. isProbeCall e \<or> isRequestCall e \<or> isRotated e) s sr"
    using retry(3,10) by (intro growsI[of sr s evs]) auto
  moreover have "grows (\<lambda>e. isProbeCall e \<or> isRequestCall e \<or> isRotated e) sr s2"
    using rotateAccount_grows[OF retry(11)] by (rule grows_mono) simp
  ultimately show ?case using retry(13) by (blast intro: grows_trans)
qed (simp_all add: grows_def)

lemma requestLoop_frame:
  assumes "requestLoop E rpmRetry url rc s = (r, s')"
  shows "statusPerUrl s' = statusPerUrl s \<and> pagesPerStatus s' = pagesPerStatus s
    \<and> cacheFiles s' = cacheFiles s \<and> clock s \<le> clock s'
    \<and> map credential (validCredentials s') = map credential (validCredentials s)"
  using assms
proof (induction rule: requestLoop_induct)
  case (failed rc s sr evs r0 r s')
  then show ?case using rotateAccount_frame[OF failed(11)] by simp
next
  case (retry rc s sr evs x s2 r s')
  then show ?case using rotateAccount_frame[OF retry(11)] by simp
qed simp_all

lemma requestLoop_index:
  assumes "requestLoop E rpmRetry url rc s = (r, s')"
    and "currentAccountIndex s < length (validCredentials s)"
  shows "currentAccountIndex s' < length (validCredentials s')"
  using assms
proof (induction rule: requestLoop_induct)
  case (failed rc s sr evs r0 r s')
  then show ?case using rotateAccount_effect(3)[OF failed(11), of rc] by simp
next
  case (retry rc s sr evs x s2 r s')
  then show ?case using rotateAccount_effect(3)[OF retry(11), of rc] by simp
qed simp_all


lemma requestLoop_throttle:
  "requestLoop E rpmRetry url rc s = (r, s') \<Longrightarrow>
   occurrences isRotated (trace s') + occurrences isThrottleAnswer (trace s) =
   occurrences isRotated (trace s) + occurrences isThrottleAnswer (trace s')"
proof (induction rule: requestLoop_induct)
  case (failed rc s sr evs r0 r s')
  then show ?case
    using rotateAccount_effect(1)[OF failed(11), of rc] by (auto simp: throttleCode_def)
next
  case (retry rc s sr evs x s2 r s')
  then show ?case
    using rotateAccount_effect(1)[OF retry(11), of rc] by (auto simp: throttleCode_def)
qed (auto simp: throttleCode_def)

lemma requestLoop_unprocessed:
  assumes "requestLoop E rpmRetry url rc s = (r, s')" and "r = Ok False"
  shows "occurrences isRotated (trace s') =
         occurrences isRotated (trace s) + (length (validCredentials s) - rc)"
  using assms
proof (induction rule: requestLoop_induct)
  case (retry rc s sr evs x s2 r s')
  then show ?case
    using rotateAccount_effect(1)[OF retry(11), of rc] rotateAccount_length[OF retry(11)] by auto
qed auto

lemma requestLoop_processed:
  assumes "requestLoop E rpmRetry url rc s = (r, s')" and "r = Ok True"
  shows "trace s' \<noteq> [] \<and> isAcceptedCall url (last (trace s'))
     \<and> occurrences isRotated (trace s') < occurrences isRotated (trace s) + (length (validCredentials s) - rc)"
  using assms
proof (induction rule: requestLoop_induct)
  case (retry rc s sr evs x s2 r s')
  then show ?case
    using rotateAccount_effect(1)[OF retry(11), of rc] rotateAccount_length[OF retry(11)] by auto
qed auto

text \<open>Every probe answered 404 is followed by one submission, and nothing else submits.\<close>

lemma requestLoop_submissions:
  "requestLoop E rpmRetry url rc s = (r, s') \<Longrightarrow>
   occurrences (isRequestFor url) (trace s') + occurrences (isProbe404For url) (trace s) =
   occurrences (isRequestFor url) (trace s) + occurrences (isProbe404For url) (trace s')"
proof (induction rule: requestLoop_induct)
  case (failed rc s sr evs r0 r s')
  then show ?case
    using rotateAccount_effect(1)[OF failed(11), of rc] by (auto simp: throttleCode_def)
next
  case (retry rc s sr evs x s2 r s')
  then show ?case
    using rotateAccount_effect(1)[OF retry(11), of rc] by (auto simp: throttleCode_def)
qed (auto simp: throttleCode_def)

text \<open>All submissions but possibly the last were answered by a throttle code.\<close>

lemma requestLoop_one_accepted:
  "requestLoop E rpmRetry url rc s = (r, s') \<Longrightarrow>
   occurrences (isRequestFor url) (trace s') + occurrences (isThrottledRequestFor url) (trace s) \<le>
   Suc (occurrences (isRequestFor url) (trace s) + occurrences (isThrottledRequestFor url) (trace s'))"
proof (induction rule: requestLoop_induct)
  case (failed rc s sr evs r0 r s')
  then show ?case
    using rotateAccount_effect(1)[OF failed(11), of rc] by (auto simp: throttleCode_def)
next
  case (retry rc s sr evs x s2 r s')
  then show ?case
    using rotateAccount_effect(1)[OF retry(11), of rc] by (auto simp: throttleCode_def)
qed (auto simp: throttleCode_def)

lemma requestLoop_accepted_submission:
  assumes "requestLoop E rpmRetry url rc s = (r, s')"
    and "occurrences (isThrottledRequestFor url) (trace s') = occurrences (isThrottledRequestFor url) (trace s)"
    and "occurrences (isProbe404For url) (trace s) < occurrences (isProbe404For url) (trace s')"
  shows "r = Ok True"
  using assms
proof (induction rule: requestLoop_induct)
  case (failed rc s sr evs r0 r s')
  then show ?case
    using rotateAccount_effect(1)[OF failed(11), of rc] by (auto simp: throttleCode_def)
next
  case (retry rc s sr evs x s2 r s')
  have mono: "occurrences (isThrottledRequestFor url) (trace s2) \<le> occurrences (isThrottledRequestFor url) (trace s')"
    using requestLoop_grows[OF retry(12)] by (auto dest!: growsD)
  from retry(3,10) rotateAccount_effect(1)[OF retry(11), of rc] retry(1,4)
  consider (probe) "occurrences (isThrottledRequestFor url) (trace s2) = occurrences (isThrottledRequestFor url) (trace s)"
      "occurrences (isProbe404For url) (trace s2) = occurrences (isProbe404For url) (trace s)"
    | (request) "occurrences (isThrottledRequestFor url) (trace s2) = Suc (occurrences (isThrottledRequestFor url) (trace s))"
    by (auto simp: throttleCode_def)
  then show ?case
  proof cases
    case probe
    with retry(13,14,15) mono show ?thesis by simp
  next
    case request
    with retry(14) mono show ?thesis by simp
  qed
qed (auto simp: throttleCode_def)

section \<open>The status cache: staleness\<close>

text \<open>
  C2. For every status and every timestamp, \<^verbatim>\<open>shouldRecheck\<close> is true exactly when the
  status is one of the six indexable ones and the timestamp is more than 14 days before
  now; it is false for each of the three other statuses whatever the age (and for a
  timestamp that is not a date).
\<close>

theorem shouldRecheck_spec:
  "(shouldRecheck now st (Some t) \<longleftrightarrow>
      st \<in> {DiscoveredCurrentlyNotIndexed, CrawledCurrentlyNotIndexed, URLIsUnknownToGoogle,
             Forbidden, Error, RateLimited} \<and> t < now - 14 * (24 * 60 * 60 * 1000))
   \<and> (st \<in> {SubmittedAndIndexed, DuplicateWithoutUserSelectedCanonical, PageWithRedirect}
        \<longrightarrow> \<not> shouldRecheck now st checkedAt)
   \<and> \<not> shouldRecheck now st None"
  by (cases st) (auto simp: shouldRecheck_def indexableStatuses_def dateLess_def CACHE_TIMEOUT_def
        split: option.splits)

theorem shouldRecheck_spec_witness:
  "shouldRecheck 2000000000 Error (Some 0) \<and> \<not> shouldRecheck 2000000000 Error (Some 1000000000)
   \<and> \<not> shouldRecheck 2000000000 SubmittedAndIndexed (Some 0)
   \<and> \<not> shouldRecheck 2000000000 PageWithRedirect None"
  using shouldRecheck_spec[of 2000000000 Error 0 None]
        shouldRecheck_spec[of 2000000000 Error 1000000000 None]
        shouldRecheck_spec[of 2000000000 SubmittedAndIndexed 0 "Some 0"]
        shouldRecheck_spec[of 2000000000 PageWithRedirect 0 None]
  by simp

section \<open>The credential pool: rotation\<close>

text \<open>
  C7. A rotation over a non-empty pool moves the active index to the next position
  modulo the length of the pool and, when the token exchange succeeds, stores the new
  token in the session at that position, where the next reader of the active session
  finds it. No session is removed or added: the length and the credentials of the pool are
  unchanged, and so is every session but the newly active one (all of them when the
  exchange fails).
\<close>

theorem rotateAccount_spec:
  assumes "validCredentials s \<noteq> []" and "rotateAccount E s = (r, s')"
  shows "currentAccountIndex s' = (currentAccountIndex s + 1) mod length (validCredentials s)
    \<and> currentAccountIndex s' < length (validCredentials s')
    \<and> length (validCredentials s') = length (validCredentials s)
    \<and> map credential (validCredentials s') = map credential (validCredentials s)
    \<and> (\<forall>j. j \<noteq> currentAccountIndex s' \<longrightarrow> validCredentials s' ! j = validCredentials s ! j)
    \<and> (\<forall>tok. r = Ok tok \<longrightarrow>
          getAccessToken E (clock s)
            (client_email (credential (validCredentials s ! currentAccountIndex s')))
            (private_key (credential (validCredentials s ! currentAccountIndex s'))) = Ok tok
          \<and> activeToken s' = (Ok tok, s'))
    \<and> ((\<forall>tok. r \<noteq> Ok tok) \<longrightarrow> validCredentials s' = validCredentials s)"
proof -
  let ?i = "(currentAccountIndex s + 1) mod length (validCredentials s)"
  let ?next = "validCredentials s ! ?i"
  let ?g = "getAccessToken E (clock s) (client_email (credential ?next)) (private_key (credential ?next))"
  have i: "?i < length (validCredentials s)"
    using assms(1) by simp
  show ?thesis
  proof (cases ?g)
    case (Ok tok)
    with assms have "r = Ok tok"
      and "s' = tick ((emit (Rotated ?i) (s\<lparr>currentAccountIndex := ?i\<rparr>))
                 \<lparr>validCredentials := (validCredentials s)[?i := ?next\<lparr>accessToken := tok\<rparr>]\<rparr>)"
      by (auto simp: rotateAccount_def Let_def emit_def tick_def)
    with i Ok show ?thesis
      by (simp add: tick_def emit_def activeToken_def map_update list_update_same_conv)
  next
    case (Thrown msg)
    with assms have "r = Thrown msg"
      and "s' = tick (emit (Rotated ?i) (s\<lparr>currentAccountIndex := ?i\<rparr>))"
      by (auto simp: rotateAccount_def Let_def emit_def tick_def)
    with i show ?thesis
      by (simp add: tick_def emit_def)
  next
    case (Exited c)
    with assms have "r = Exited c"
      and "s' = emit (Rotated ?i) (s\<lparr>currentAccountIndex := ?i\<rparr>)"
      by (auto simp: rotateAccount_def Let_def emit_def tick_def)
    with i show ?thesis
      by (simp add: emit_def)
  qed
qed

text \<open>From the last position of the two-account pool the rotation wraps to position 0.\<close>

theorem rotateAccount_spec_witness:
  "validCredentials (demoState\<lparr>currentAccountIndex := 1\<rparr>) \<noteq> []
   \<and> fst (rotateAccount demoEnv (demoState\<lparr>currentAccountIndex := 1\<rparr>)) = Ok ''token of a@x.test''
   \<and> currentAccountIndex (snd (rotateAccount demoEnv (demoState\<lparr>currentAccountIndex := 1\<rparr>))) = 0
   \<and> map accessToken (validCredentials (snd (rotateAccount demoEnv (demoState\<lparr>currentAccountIndex := 1\<rparr>))))
       = [''token of a@x.test'', ''tb'']
   \<and> map credential (validCredentials (snd (rotateAccount demoEnv (demoState\<lparr>currentAccountIndex := 1\<rparr>))))
       = [accountA, accountB]"
proof -
  let ?s = "demoState\<lparr>currentAccountIndex := 1\<rparr>"
  have ne: "validCredentials ?s \<noteq> []"
    by (simp add: demoState_def)
  have run: "rotateAccount demoEnv ?s = (fst (rotateAccount demoEnv ?s), snd (rotateAccount demoEnv ?s))"
    by simp
  have ev: "fst (rotateAccount demoEnv ?s) = Ok ''token of a@x.test''"
    "map accessToken (validCredentials (snd (rotateAccount demoEnv ?s))) = [''token of a@x.test'', ''tb'']"
    by (simp_all add: rotateAccount_def Let_def demoState_def demoEnv_def getAccessToken_def
        accountA_def accountB_def emit_def tick_def)
  from rotateAccount_spec[OF ne run] ne ev show ?thesis
    by (simp add: demoState_def)
qed

subsection \<open>One URL in each phase\<close>

lemma addPage_simps [simp]:
  "trace (addPage st url s) = trace s" "clock (addPage st url s) = clock s"
  "validCredentials (addPage st url s) = validCredentials s"
  "currentAccountIndex (addPage st url s) = currentAccountIndex s"
  "statusPerUrl (addPage st url s) = statusPerUrl s"
  "cacheFiles (addPage st url s) = cacheFiles s"
  "pagesPerStatus (addPage st url s) = (pagesPerStatus s)(st := pagesPerStatus s st @ [url])"
  by (simp_all add: addPage_def)

lemma fetchLive_cases:
  assumes "fetchLive E siteUrl url s = (r, t)"
  obtains (fetched) st s1 where "statusLoop E siteUrl url Error 0 s = (Ok st, s1)" "r = Ok ()"
      "t = addPage (Some st) url ((tick s1)\<lparr>statusPerUrl := (statusPerUrl s1)
             (url \<mapsto> \<lparr>status = st, lastCheckedAt = Some (dateNow E (clock s1))\<rparr>)\<rparr>)"
  | (aborted) r0 where "statusLoop E siteUrl url Error 0 s = (r0, t)" "\<forall>x. r0 \<noteq> Ok x" "\<forall>x. r \<noteq> Ok x"
  using assms unfolding fetchLive_def
proof (cases rule: andThen_cases)
  case (continue st s1)
  then have "statusLoop E siteUrl url Error 0 s = (Ok st, s1)" "r = Ok ()"
    "t = addPage (Some st) url ((tick s1)\<lparr>statusPerUrl := (statusPerUrl s1)
             (url \<mapsto> \<lparr>status = st, lastCheckedAt = Some (dateNow E (clock s1))\<rparr>)\<rparr>)"
    by (simp_all add: Let_def)
  then show ?thesis by (rule fetched)
next
  case (abort r0)
  then show ?thesis by (rule aborted)
qed

lemma processUrl_cases:
  assumes "processUrl E rpmRetry url s = (r, t)"
  obtains (processed) "requestLoop E rpmRetry url 0 s = (Ok True, t)" "r = Ok ()"
  | (unprocessed) s1 where "requestLoop E rpmRetry url 0 s = (Ok False, s1)" "r = Ok ()"
      "t = emit (Reported url) s1"
  | (aborted) r0 where "requestLoop E rpmRetry url 0 s = (r0, t)" "\<forall>x. r0 \<noteq> Ok x" "\<forall>x. r \<noteq> Ok x"
  using assms unfolding processUrl_def
proof (cases rule: andThen_cases)
  case (continue p s1)
  show ?thesis
  proof (cases p)
    case True
    with continue have "requestLoop E rpmRetry url 0 s = (Ok True, t)" "r = Ok ()"
      by simp_all
    then show ?thesis by (rule processed)
  next
    case False
    with continue have "requestLoop E rpmRetry url 0 s = (Ok False, s1)" "r = Ok ()"
      "t = emit (Reported url) s1"
      by simp_all
    then show ?thesis by (rule unprocessed)
  qed
next
  case (abort r0)
  then show ?thesis by (rule aborted)
qed




section \<open>The rotation budget\<close>



section \<open>Phase C: probes and submissions\<close>

lemma requestLoop_silent:
  assumes "requestLoop E rpmRetry url rc s = (r, s')"
  shows "occurrences (isReportedFor u) (trace s') = occurrences (isReportedFor u) (trace s)"
proof (rule grows_occurrences[OF requestLoop_grows[OF assms]])
  fix e assume "isProbeCall e \<or> isRequestCall e \<or> isRotated e"
  then show "\<not> isReportedFor u e" by (cases e) auto
qed

text \<open>
  C8. While a URL is processed in the indexing-request phase, every probe answered 404 is
  followed by one submission call and there is no other submission call. So when a probe
  of the URL is answered 404 and no submission of the URL is answered 429 or 403,
  \<^verbatim>\<open>requestIndexing\<close> is called exactly once for the URL, the URL is processed and nothing
  is reported.
\<close>

theorem requestIndexing_once:
  assumes "processUrl E rpmRetry url s = (q, t)"
  shows "occurrences (isRequestFor url) (trace t) + occurrences (isProbe404For url) (trace s)
           = occurrences (isRequestFor url) (trace s) + occurrences (isProbe404For url) (trace t)
    \<and> (occurrences (isProbe404For url) (trace s) < occurrences (isProbe404For url) (trace t)
        \<and> occurrences (isThrottledRequestFor url) (trace t)
            = occurrences (isThrottledRequestFor url) (trace s)
        \<longrightarrow> occurrences (isRequestFor url) (trace t) = occurrences (isRequestFor url) (trace s) + 1
            \<and> q = Ok ()
            \<and> occurrences (isReportedFor url) (trace t) = occurrences (isReportedFor url) (trace s))"
  using assms
proof (cases rule: processUrl_cases)
  case processed
  from requestLoop_submissions[OF processed(1)] requestLoop_one_accepted[OF processed(1)]
    requestLoop_silent[OF processed(1), of url] processed(2)
  show ?thesis by auto
next
  case (unprocessed s1)
  from requestLoop_submissions[OF unprocessed(1)]
    requestLoop_accepted_submission[OF unprocessed(1)] unprocessed(3)
  show ?thesis by auto
next
  case (aborted r0)
  from requestLoop_submissions[OF aborted(1)]
    requestLoop_accepted_submission[OF aborted(1)] aborted(2)
  show ?thesis by auto
qed

text \<open>
  The first probe is answered 429, the probe after the rotation 404, the submission 200:
  one submission call.
\<close>

theorem requestIndexing_once_witness:
  "fst (processUrl probe404Env False ''u'' demoState) = Ok ()
   \<and> trace (snd (processUrl probe404Env False ''u'' demoState))
       = [ProbeCall ''ta'' ''u'' 0 429, Rotated 1, ProbeCall ''token of b@x.test'' ''u'' 0 404,
          RequestCall ''token of b@x.test'' ''u'' 200]
   \<and> occurrences (isRequestFor ''u'') (trace (snd (processUrl probe404Env False ''u'' demoState))) = 1"
proof -
  let ?P = "processUrl probe404Env False ''u'' demoState"
  have tr: "trace (snd ?P) = [ProbeCall ''ta'' ''u'' 0 429, Rotated 1,
      ProbeCall ''token of b@x.test'' ''u'' 0 404, RequestCall ''token of b@x.test'' ''u'' 200]"
    and r: "fst ?P = Ok ()" and tr0: "trace demoState = []"
    by code_simp+
  have run: "?P = (fst ?P, snd ?P)" by simp
  from requestIndexing_once[OF run] tr tr0
  have "occurrences (isRequestFor ''u'') (trace (snd ?P)) = 1"
    by (simp add: throttleCode_def)
  with tr r show ?thesis by simp
qed

text \<open>
  C10, as stated, fails: 404 is a probe answer other than 429 and 403, and it is followed by
  a submission call. Here every probe is answered 404 and every submission 429: the URL
  is submitted twice, is not processed, and the failure is reported.
\<close>

theorem probe_terminates_counterexample:
  "getPublishMetadata rejectingEnv 0 ''ta'' ''u'' 0 = 404
   \<and> fst (requestLoop rejectingEnv False ''u'' 0 demoState) = Ok False
   \<and> trace (snd (processUrl rejectingEnv False ''u'' demoState))
       = [ProbeCall ''ta'' ''u'' 0 404, RequestCall ''ta'' ''u'' 429, Rotated 1,
          ProbeCall ''token of b@x.test'' ''u'' 0 404,
          RequestCall ''token of b@x.test'' ''u'' 429, Rotated 0, Reported ''u'']"
  by code_simp

text \<open>
  C10, amended. A probe answer other than 429, 403 and 404 marks the URL as processed and
  ends its loop on that attempt: the probe is the only thing the loop did, so there is no
  submission call and no report. A probe answered 404 is followed by one submission call,
  and the loop ends there, processed, unless the submission is answered 429 or 403. The
  failure of a URL is reported exactly when its processing returns after as many throttle
  codes (from probes or submissions) as there are valid sessions, which is the same as
  after that many rotations; it is reported at most once.
\<close>

theorem probe_terminates:
  "(rc < length (validCredentials s) \<and> currentAccountIndex s < length (validCredentials s)
      \<and> tok = accessToken (validCredentials s ! currentAccountIndex s)
      \<and> retries = (if rpmRetry then QUOTA_rpm_retries else 0)
      \<and> code = getPublishMetadata E (clock s) tok url retries
      \<and> \<not> throttleCode code
     \<longrightarrow> (code \<noteq> 404 \<longrightarrow>
            requestLoop E rpmRetry url rc s = (Ok True, tick (emit (ProbeCall tok url retries code) s)))
       \<and> (code = 404 \<and> \<not> throttleCode (requestIndexing E (Suc (clock s)) tok url) \<longrightarrow>
            requestLoop E rpmRetry url rc s =
              (Ok True, tick (emit (RequestCall tok url (requestIndexing E (Suc (clock s)) tok url))
                                (tick (emit (ProbeCall tok url retries code) s))))))
   \<and> (processUrl E rpmRetry url s = (q, t) \<longrightarrow>
        occurrences (isReportedFor url) (trace t) =
          occurrences (isReportedFor url) (trace s)
          + (if q = Ok () \<and> occurrences isThrottleAnswer (trace t)
                              = occurrences isThrottleAnswer (trace s) + length (validCredentials s)
             then 1 else 0)
        \<and> (occurrences isThrottleAnswer (trace t)
              = occurrences isThrottleAnswer (trace s) + length (validCredentials s)
            \<longleftrightarrow> occurrences isRotated (trace t)
              = occurrences isRotated (trace s) + length (validCredentials s)))"
proof (intro conjI impI)
  assume a: "rc < length (validCredentials s) \<and> currentAccountIndex s < length (validCredentials s)
      \<and> tok = accessToken (validCredentials s ! currentAccountIndex s)
      \<and> retries = (if rpmRetry then QUOTA_rpm_retries else 0)
      \<and> code = getPublishMetadata E (clock s) tok url retries
      \<and> \<not> throttleCode code"
  then have b: "rc < length (validCredentials s)"
    and i: "currentAccountIndex s < length (validCredentials s)"
    and tk: "tok = accessToken (validCredentials s ! currentAccountIndex s)"
    and rt: "retries = (if rpmRetry then QUOTA_rpm_retries else 0)"
    and cd: "code = getPublishMetadata E (clock s) tok url retries"
    and nt: "\<not> throttleCode code"
    by blast+
  note step = requestLoop_step[OF b i tk rt cd refl refl refl]
  { assume "code \<noteq> 404"
    with nt
    show "requestLoop E rpmRetry url rc s = (Ok True, tick (emit (ProbeCall tok url retries code) s))"
      unfolding step by simp }
  { assume "code = 404 \<and> \<not> throttleCode (requestIndexing E (Suc (clock s)) tok url)"
    with nt
    show "requestLoop E rpmRetry url rc s =
              (Ok True, tick (emit (RequestCall tok url (requestIndexing E (Suc (clock s)) tok url))
                                (tick (emit (ProbeCall tok url retries code) s))))"
      unfolding step by simp }
next
  assume run: "processUrl E rpmRetry url s = (q, t)"
  then have "(occurrences (isReportedFor url) (trace t) =
          occurrences (isReportedFor url) (trace s)
          + (if q = Ok () \<and> occurrences isThrottleAnswer (trace t)
                              = occurrences isThrottleAnswer (trace s) + length (validCredentials s)
             then 1 else 0))
        \<and> (occurrences isThrottleAnswer (trace t)
              = occurrences isThrottleAnswer (trace s) + length (validCredentials s)
            \<longleftrightarrow> occurrences isRotated (trace t)
              = occurrences isRotated (trace s) + length (validCredentials s))"
  proof (cases rule: processUrl_cases)
    case processed
    from requestLoop_processed[OF processed(1) refl] requestLoop_throttle[OF processed(1)]
      requestLoop_silent[OF processed(1), of url]
    show ?thesis by auto
  next
    case (unprocessed s1)
    from requestLoop_unprocessed[OF unprocessed(1) refl] requestLoop_throttle[OF unprocessed(1)]
      requestLoop_silent[OF unprocessed(1), of url] unprocessed(2,3)
    show ?thesis by auto
  next
    case (aborted r0)
    from requestLoop_throttle[OF aborted(1)] requestLoop_silent[OF aborted(1), of url] aborted(3)
    show ?thesis by auto
  qed
  then show "occurrences (isReportedFor url) (trace t) =
          occurrences (isReportedFor url) (trace s)
          + (if q = Ok () \<and> occurrences isThrottleAnswer (trace t)
                              = occurrences isThrottleAnswer (trace s) + length (validCredentials s)
             then 1 else 0)"
    and "(occurrences isThrottleAnswer (trace t)
              = occurrences isThrottleAnswer (trace s) + length (validCredentials s))
            = (occurrences isRotated (trace t)
              = occurrences isRotated (trace s) + length (validCredentials s))"
    by simp_all
qed

text \<open>
  A probe answered 500 ends the loop at once, processed, with nothing but the probe; and
  with every probe answered 429 the failure is reported once, after two throttle codes.
\<close>

theorem probe_terminates_witness:
  "requestLoop serverErrorEnv False ''u'' 0 demoState
     = (Ok True, tick (emit (ProbeCall ''ta'' ''u'' 0 500) demoState))
   \<and> fst (processUrl throttledEnv False ''u'' demoState) = Ok ()
   \<and> occurrences isThrottleAnswer (trace (snd (processUrl throttledEnv False ''u'' demoState))) = 2
   \<and> occurrences (isReportedFor ''u'') (trace (snd (processUrl throttledEnv False ''u'' demoState))) = 1"
proof -
  let ?P = "processUrl throttledEnv False ''u'' demoState"
  have pre: "0 < length (validCredentials demoState)"
    "currentAccountIndex demoState < length (validCredentials demoState)"
    "''ta'' = accessToken (validCredentials demoState ! currentAccountIndex demoState)"
    "(0::nat) = (if False then QUOTA_rpm_retries else 0)"
    "500 = getPublishMetadata serverErrorEnv (clock demoState) ''ta'' ''u'' 0"
    "\<not> throttleCode 500" "(500::int) \<noteq> 404"
    by (simp_all add: demoState_def serverErrorEnv_def demoEnv_def throttleCode_def)
  have ev: "fst ?P = Ok ()" "occurrences isThrottleAnswer (trace (snd ?P)) = 2"
    "trace demoState = []" "length (validCredentials demoState) = 2"
    by code_simp+
  have run: "?P = (Ok (), snd ?P)"
    by (simp add: prod_eq_iff ev)
  from probe_terminates[where rc = 0 and s = demoState and tok = "''ta''" and retries = 0
      and rpmRetry = False and code = 500 and E = serverErrorEnv and url = "''u''"] pre
  have "requestLoop serverErrorEnv False ''u'' 0 demoState
     = (Ok True, tick (emit (ProbeCall ''ta'' ''u'' 0 500) demoState))"
    by simp
  moreover
  from probe_terminates[where s = demoState and rpmRetry = False and E = throttledEnv
      and url = "''u''" and q = "Ok ()" and t = "snd ?P"] run ev
  have "occurrences (isReportedFor ''u'') (trace (snd ?P)) = 1"
    by simp
  ultimately show ?thesis using ev by simp
qed

section \<open>The credential pool: construction\<close>

lemma getAccessToken_Exited:
  "(getAccessToken E k email key = Exited c) = ((email = [] \<or> key = []) \<and> c = 1)"
  by (auto simp: getAccessToken_def split: sum.splits)

lemma tryCredential_cases:
  assumes "tryCredential E siteUrl c v s = (r, s')"
  obtains
    (exit) "blank c" "r = Exited 1" "s' = s"
  | (noToken) msg where "\<not> blank c"
      "getAccessToken E (clock s) (client_email c) (private_key c) = Thrown msg"
      "r = Ok v" "s' = emit (Warned (client_email c)) (tick s)"
  | (noAccess) tok msg where "\<not> blank c"
      "getAccessToken E (clock s) (client_email c) (private_key c) = Ok tok"
      "checkSiteUrl E (Suc (clock s)) tok siteUrl = Inl msg"
      "r = Ok v" "s' = emit (Warned (client_email c)) (tick (tick s))"
  | (admitted) tok url where "\<not> blank c"
      "getAccessToken E (clock s) (client_email c) (private_key c) = Ok tok"
      "checkSiteUrl E (Suc (clock s)) tok siteUrl = Inr url"
      "r = Ok (if falsy v then Some url else v)"
      "s' = (tick (tick s))\<lparr>validCredentials :=
               validCredentials s @ [\<lparr>credential = c, accessToken = tok\<rparr>]\<rparr>"
proof (cases "getAccessToken E (clock s) (client_email c) (private_key c)")
  case (Exited n)
  then have "blank c" "n = 1"
    by (simp_all add: getAccessToken_Exited blank_def)
  moreover from assms Exited have "r = Exited n" "s' = s"
    by (simp_all add: tryCredential_def)
  ultimately have "blank c" "r = Exited 1" "s' = s" by simp_all
  then show ?thesis by (rule exit)
next
  case (Thrown msg)
  then have nb: "\<not> blank c"
    by (auto simp: blank_def getAccessToken_def split: if_splits)
  from assms Thrown have "r = Ok v" "s' = emit (Warned (client_email c)) (tick s)"
    by (simp_all add: tryCredential_def)
  with nb Thrown show ?thesis by (rule noToken)
next
  case (Ok tok)
  then have nb: "\<not> blank c"
    by (auto simp: blank_def getAccessToken_def split: if_splits)
  show ?thesis
  proof (cases "checkSiteUrl E (Suc (clock s)) tok siteUrl")
    case (Inl msg)
    with assms Ok have "r = Ok v" "s' = emit (Warned (client_email c)) (tick (tick s))"
      by (simp_all add: tryCredential_def Let_def)
    with nb Ok Inl show ?thesis by (rule noAccess)
  next
    case (Inr url)
    with assms Ok have "r = Ok (if falsy v then Some url else v)"
      "s' = (tick (tick s))\<lparr>validCredentials :=
               validCredentials s @ [\<lparr>credential = c, accessToken = tok\<rparr>]\<rparr>"
      by (simp_all add: tryCredential_def Let_def)
    with nb Ok Inr show ?thesis by (rule admitted)
  qed
qed

text \<open>The loop over the credentials: what it leaves behind when no credential is blank.\<close>

lemma collectCredentials_blank:
  "\<exists>c\<in>set cs. blank c \<Longrightarrow> collectCredentials E siteUrl cs v s = (r, s') \<Longrightarrow> r = Exited 1"
proof (induction cs arbitrary: v s)
  case Nil
  then show ?case by simp
next
  case (Cons c cs)
  from Cons.prems(2) have "andThen (tryCredential E siteUrl c v s)
      (\<lambda>v' s1. collectCredentials E siteUrl cs v' s1) = (r, s')"
    by simp
  then show ?case
  proof (cases rule: andThen_cases)
    case (continue v1 s1)
    from continue(1) have "\<not> blank c"
      by (cases rule: tryCredential_cases) simp_all
    with Cons.prems(1) have "\<exists>c\<in>set cs. blank c" by simp
    from Cons.IH[OF this continue(2)] show ?thesis .
  next
    case (abort r0)
    from abort(1) abort(2) have "r0 = Exited 1"
      by (cases rule: tryCredential_cases) simp_all
    with abort(1) Cons.prems(2) show ?thesis by simp
  qed
qed

lemma verifies_steady: "steady E \<Longrightarrow> verifies E k siteUrl c = verifies E 0 siteUrl c"
proof -
  assume st: "steady E"
  then have "authorize E k (client_email c) (private_key c)
      = authorize E 0 (client_email c) (private_key c)"
    unfolding steady_def by blast
  then have a: "getAccessToken E k (client_email c) (private_key c)
      = getAccessToken E 0 (client_email c) (private_key c)"
    by (simp add: getAccessToken_def)
  have b: "checkSiteUrl E (Suc k) tok siteUrl = checkSiteUrl E (Suc 0) tok siteUrl" for tok
  proof -
    from st have "checkSiteUrl E (Suc k) tok siteUrl = checkSiteUrl E 0 tok siteUrl"
      and "checkSiteUrl E (Suc 0) tok siteUrl = checkSiteUrl E 0 tok siteUrl"
      unfolding steady_def by blast+
    then show ?thesis by simp
  qed
  show ?thesis
    unfolding verifies_def a b ..
qed

lemma collectCredentials_sound:
  assumes "\<forall>c\<in>set cs. \<not> blank c" and "collectCredentials E siteUrl cs v s = (r, s')"
  shows "\<exists>v' new. r = Ok v' \<and> validCredentials s' = validCredentials s @ new
      \<and> subseq (map credential new) cs
      \<and> occurrences isWarned (trace s') + length new = occurrences isWarned (trace s) + length cs
      \<and> (v' = None \<longleftrightarrow> v = None \<and> new = [])
      \<and> ((\<forall>k tok. checkSiteUrl E k tok siteUrl \<noteq> Inr []) \<longrightarrow> (falsy v' \<longleftrightarrow> falsy v \<and> new = []))
      \<and> (\<forall>x\<in>set new. \<exists>k. verifies E k siteUrl (credential x))
      \<and> (steady E \<longrightarrow> map credential new = filter (verifies E 0 siteUrl) cs)"
  using assms
proof (induction cs arbitrary: v s)
  case Nil
  then show ?case by auto
next
  case (Cons c cs)
  from Cons.prems(1) have nb: "\<not> blank c" and rest: "\<forall>c\<in>set cs. \<not> blank c"
    by simp_all
  from Cons.prems(2) have "andThen (tryCredential E siteUrl c v s)
      (\<lambda>v' s1. collectCredentials E siteUrl cs v' s1) = (r, s')"
    by simp
  then show ?case
  proof (cases rule: andThen_cases)
    case (abort r0)
    from abort(1) abort(2) nb show ?thesis
      by (cases rule: tryCredential_cases) simp_all
  next
    case (continue v1 s1)
    from Cons.IH[OF rest continue(2)] obtain v' new where
      ih: "r = Ok v'" "validCredentials s' = validCredentials s1 @ new"
        "subseq (map credential new) cs"
        "occurrences isWarned (trace s') + length new = occurrences isWarned (trace s1) + length cs"
        "v' = None \<longleftrightarrow> v1 = None \<and> new = []"
        "(\<forall>k tok. checkSiteUrl E k tok siteUrl \<noteq> Inr []) \<longrightarrow> (falsy v' \<longleftrightarrow> falsy v1 \<and> new = [])"
        "\<forall>x\<in>set new. \<exists>k. verifies E k siteUrl (credential x)"
        "steady E \<longrightarrow> map credential new = filter (verifies E 0 siteUrl) cs"
      by blast
    from continue(1) show ?thesis
    proof (cases rule: tryCredential_cases)
      case exit
      with nb show ?thesis by simp
    next
      case (noToken msg)
      then have nv: "\<not> verifies E (clock s) siteUrl c"
        by (simp add: verifies_def)
      then have "steady E \<longrightarrow> \<not> verifies E 0 siteUrl c"
        using verifies_steady by blast
      with ih noToken show ?thesis
        by (intro exI[of _ v'] exI[of _ new]) (auto simp: subseq_Cons')
    next
      case (noAccess tok msg)
      then have nv: "\<not> verifies E (clock s) siteUrl c"
        by (simp add: verifies_def)
      then have "steady E \<longrightarrow> \<not> verifies E 0 siteUrl c"
        using verifies_steady by blast
      with ih noAccess show ?thesis
        by (intro exI[of _ v'] exI[of _ new]) (auto simp: subseq_Cons')
    next
      case (admitted tok url)
      then have ve: "verifies E (clock s) siteUrl c"
        by (simp add: verifies_def)
      then have "steady E \<longrightarrow> verifies E 0 siteUrl c"
        using verifies_steady by blast
      moreover have "(\<forall>k tok. checkSiteUrl E k tok siteUrl \<noteq> Inr []) \<longrightarrow> url \<noteq> []"
        using admitted(3) by auto
      ultimately show ?thesis using ih admitted ve
        by (intro exI[of _ v'] exI[of _ "\<lparr>credential = c, accessToken = tok\<rparr> # new"])
           (auto simp: falsy_def split: option.splits)
    qed
  qed
qed

lemma buildPool_cases:
  assumes "buildPool E siteUrl cs s = (p, t)"
  obtains (aborted) r0 where
      "collectCredentials E siteUrl cs None (s\<lparr>validCredentials := []\<rparr>) = (r0, t)"
      "\<forall>x. r0 \<noteq> Ok x" "\<forall>x. p \<noteq> Ok x"
  | (empty) v where "collectCredentials E siteUrl cs None (s\<lparr>validCredentials := []\<rparr>) = (Ok v, t)"
      "validCredentials t = [] \<or> falsy v" "p = Exited 1"
  | (built) site s1 where
      "collectCredentials E siteUrl cs None (s\<lparr>validCredentials := []\<rparr>) = (Ok (Some site), s1)"
      "validCredentials s1 \<noteq> []" "site \<noteq> []" "p = Ok site" "t = s1\<lparr>currentAccountIndex := 0\<rparr>"
  using assms unfolding buildPool_def
proof (cases rule: andThen_cases)
  case (abort r0)
  then show ?thesis by (rule aborted)
next
  case (continue v s1)
  show ?thesis
  proof (cases "length (validCredentials s1) = 0 \<or> falsy v")
    case True
    with continue have "collectCredentials E siteUrl cs None (s\<lparr>validCredentials := []\<rparr>) = (Ok v, t)"
      "validCredentials t = [] \<or> falsy v" "p = Exited 1"
      by auto
    then show ?thesis by (rule empty)
  next
    case False
    then obtain site where v: "v = Some site" "site \<noteq> []"
      by (cases v) (auto simp: falsy_def)
    with False continue
    have "collectCredentials E siteUrl cs None (s\<lparr>validCredentials := []\<rparr>) = (Ok (Some site), s1)"
      "validCredentials s1 \<noteq> []" "site \<noteq> []" "p = Ok site" "t = s1\<lparr>currentAccountIndex := 0\<rparr>"
      by auto
    then show ?thesis by (rule built)
  qed
qed

text \<open>
  C3, as stated, fails: the service-account file lists a working account and then an
  account without a private key. The working account is verified and collected; at the
  second one \<^verbatim>\<open>getAccessToken\<close> ends the process with status 1, although one credential
  succeeded, and no warning is printed. With the working account alone the run completes.
\<close>

theorem pool_construction_counterexample:
  "fst (index (keyFileEnv [accountA, accountNoKey]) noVars (Some ''a.test'') noOptions emptyWorld)
     = Exited 1
   \<and> map credential (validCredentials
        (snd (index (keyFileEnv [accountA, accountNoKey]) noVars (Some ''a.test'') noOptions emptyWorld)))
     = [accountA]
   \<and> trace (snd (index (keyFileEnv [accountA, accountNoKey]) noVars (Some ''a.test'') noOptions emptyWorld))
     = []
   \<and> fst (index (keyFileEnv [accountA]) noVars (Some ''a.test'') noOptions emptyWorld) = Ok ()"
  by code_simp

text \<open>
  C3, amended. A credential that has a client email and a private key is attempted on its
  own: when its token exchange or its ownership check throws, it is left out with one
  warning and the loop goes on; otherwise it is appended to the pool; the sessions
  collected before are kept in both cases. A credential without client email or private
  key ends the process with status 1 when the loop reaches it. When no credential is
  blank, pool construction never throws, the pool is a subsequence of the credentials each
  of which verified, every other credential was warned about once, and (with collaborators
  that answer a credential the same way at any time) the pool is exactly the credentials
  that verify; the process then ends fatally exactly when the pool is empty, provided the
  ownership check never answers an empty site form.
\<close>

theorem pool_construction:
  "(tryCredential E siteUrl c v s = (r, s') \<longrightarrow>
      (blank c \<longrightarrow> r = Exited 1)
      \<and> (\<not> blank c \<longrightarrow>
           (\<exists>v'. r = Ok v')
           \<and> (verifies E (clock s) siteUrl c \<longrightarrow>
                (\<exists>tok. validCredentials s' = validCredentials s @ [\<lparr>credential = c, accessToken = tok\<rparr>])
                \<and> trace s' = trace s)
           \<and> (\<not> verifies E (clock s) siteUrl c \<longrightarrow>
                validCredentials s' = validCredentials s
                \<and> trace s' = trace s @ [Warned (client_email c)])))
   \<and> (buildPool E siteUrl cs s = (p, t) \<longrightarrow>
      (p = Exited 1 \<or> (\<exists>site. p = Ok site \<and> site \<noteq> [] \<and> validCredentials t \<noteq> []
                                 \<and> currentAccountIndex t = 0))
      \<and> ((\<exists>c\<in>set cs. blank c) \<longrightarrow> p = Exited 1)
      \<and> ((\<forall>c\<in>set cs. \<not> blank c) \<longrightarrow>
           subseq (map credential (validCredentials t)) cs
           \<and> occurrences isWarned (trace t) + length (validCredentials t)
                = occurrences isWarned (trace s) + length cs
           \<and> (\<forall>x\<in>set (validCredentials t). \<exists>k. verifies E k siteUrl (credential x))
           \<and> (steady E \<longrightarrow> map credential (validCredentials t) = filter (verifies E 0 siteUrl) cs)
           \<and> ((\<forall>k tok. checkSiteUrl E k tok siteUrl \<noteq> Inr []) \<longrightarrow>
                (p = Exited 1 \<longleftrightarrow> validCredentials t = []))))"
proof (intro conjI impI)
  assume run: "tryCredential E siteUrl c v s = (r, s')"
  { assume "blank c"
    with run show "r = Exited 1"
      by (cases rule: tryCredential_cases) simp_all }
  { assume nb: "\<not> blank c"
    from run nb show "\<exists>v'. r = Ok v'"
      by (cases rule: tryCredential_cases) simp_all
    { assume ve: "verifies E (clock s) siteUrl c"
      from run nb ve
      show "\<exists>tok. validCredentials s' = validCredentials s @ [\<lparr>credential = c, accessToken = tok\<rparr>]"
        by (cases rule: tryCredential_cases) (simp_all add: verifies_def)
      from run nb ve show "trace s' = trace s"
        by (cases rule: tryCredential_cases) (simp_all add: verifies_def) }
    { assume nv: "\<not> verifies E (clock s) siteUrl c"
      from run nb nv show "validCredentials s' = validCredentials s"
        by (cases rule: tryCredential_cases) (simp_all add: verifies_def)
      from run nb nv show "trace s' = trace s @ [Warned (client_email c)]"
        by (cases rule: tryCredential_cases) (simp_all add: verifies_def) } }
next
  assume run: "buildPool E siteUrl cs s = (p, t)"
  have blankExit: "p = Exited 1" if "\<exists>c\<in>set cs. blank c"
    using run
  proof (cases rule: buildPool_cases)
    case (aborted r0)
    from collectCredentials_blank[OF that aborted(1)] run aborted(1) show ?thesis
      by (simp add: buildPool_def)
  next
    case (empty v)
    then show ?thesis by simp
  next
    case (built site s1)
    from collectCredentials_blank[OF that built(1)] show ?thesis by simp
  qed
  show "p = Exited 1 \<or> (\<exists>site. p = Ok site \<and> site \<noteq> [] \<and> validCredentials t \<noteq> []
                                 \<and> currentAccountIndex t = 0)"
  proof (cases "\<exists>c\<in>set cs. blank c")
    case True
    then show ?thesis using blankExit by simp
  next
    case False
    then have nb: "\<forall>c\<in>set cs. \<not> blank c" by simp
    from run show ?thesis
    proof (cases rule: buildPool_cases)
      case (aborted r0)
      with collectCredentials_sound[OF nb aborted(1)] show ?thesis by auto
    next
      case (empty v)
      then show ?thesis by simp
    next
      case (built site s1)
      then show ?thesis by simp
    qed
  qed
  { assume "\<exists>c\<in>set cs. blank c"
    then show "p = Exited 1" by (rule blankExit) }
  { assume nb: "\<forall>c\<in>set cs. \<not> blank c"
    have "subseq (map credential (validCredentials t)) cs
           \<and> occurrences isWarned (trace t) + length (validCredentials t)
                = occurrences isWarned (trace s) + length cs
           \<and> (\<forall>x\<in>set (validCredentials t). \<exists>k. verifies E k siteUrl (credential x))
           \<and> (steady E \<longrightarrow> map credential (validCredentials t) = filter (verifies E 0 siteUrl) cs)
           \<and> ((\<forall>k tok. checkSiteUrl E k tok siteUrl \<noteq> Inr []) \<longrightarrow>
                (p = Exited 1 \<longleftrightarrow> validCredentials t = []))"
      using run
    proof (cases rule: buildPool_cases)
      case (aborted r0)
      with collectCredentials_sound[OF nb aborted(1)] show ?thesis by auto
    next
      case (empty v)
      from collectCredentials_sound[OF nb empty(1)] empty(2,3) show ?thesis
        by (auto simp: falsy_def)
    next
      case (built site s1)
      from collectCredentials_sound[OF nb built(1)] built(2-5) show ?thesis
        by auto
    qed
    then show "subseq (map credential (validCredentials t)) cs"
      and "occurrences isWarned (trace t) + length (validCredentials t)
                = occurrences isWarned (trace s) + length cs"
      and "\<forall>x\<in>set (validCredentials t). \<exists>k. verifies E k siteUrl (credential x)"
      and "steady E \<Longrightarrow> map credential (validCredentials t) = filter (verifies E 0 siteUrl) cs"
      and "\<forall>k tok. checkSiteUrl E k tok siteUrl \<noteq> Inr [] \<Longrightarrow> (p = Exited 1) = (validCredentials t = [])"
      by simp_all }
qed

text \<open>
  The ownership check of the first account throws: it is warned about and left out, the
  second account is collected, and the run goes on with the verified site.
\<close>

theorem pool_construction_witness:
  "\<not> blank accountB \<and> \<not> blank accountA \<and> steady partialEnv
   \<and> fst (buildPool partialEnv ''a.test'' [accountB, accountA] emptyWorld) = Ok ''a.test''
   \<and> map credential (validCredentials (snd (buildPool partialEnv ''a.test'' [accountB, accountA] emptyWorld)))
       = [accountA]
   \<and> occurrences isWarned (trace (snd (buildPool partialEnv ''a.test'' [accountB, accountA] emptyWorld))) = 1
   \<and> trace (snd (tryCredential partialEnv ''a.test'' accountB None emptyWorld)) = [Warned ''b@x.test'']"
proof -
  let ?B = "buildPool partialEnv ''a.test'' [accountB, accountA] emptyWorld"
  let ?T = "tryCredential partialEnv ''a.test'' accountB None emptyWorld"
  have nb: "\<not> blank accountB" "\<not> blank accountA"
    by (simp_all add: blank_def accountA_def accountB_def)
  then have all: "\<forall>c\<in>set [accountB, accountA]. \<not> blank c" by simp
  have st: "steady partialEnv"
    by (simp add: steady_def partialEnv_def demoEnv_def)
  have ev: "fst ?B = Ok ''a.test''" "trace emptyWorld = []"
    "filter (verifies partialEnv 0 ''a.test'') [accountB, accountA] = [accountA]"
    "\<not> verifies partialEnv (clock emptyWorld) ''a.test'' accountB"
    "client_email accountB = ''b@x.test''"
    by code_simp+
  have runB: "?B = (fst ?B, snd ?B)" and runT: "?T = (fst ?T, snd ?T)"
    by simp_all
  from pool_construction[where E = partialEnv and siteUrl = "''a.test''" and c = accountB
      and v = None and s = emptyWorld and r = "fst ?T" and s' = "snd ?T"
      and cs = "[accountB, accountA]" and p = "fst ?B" and t = "snd ?B"]
    runB runT nb all st ev
  have "map credential (validCredentials (snd ?B)) = [accountA]"
    "occurrences isWarned (trace (snd ?B)) + length (validCredentials (snd ?B)) = 2"
    "trace (snd ?T) = [Warned ''b@x.test'']"
    by simp_all
  moreover from this(1) have "length (validCredentials (snd ?B)) = 1"
    by (metis length_map length_Cons list.size(3) One_nat_def)
  ultimately show ?thesis using nb st ev by simp
qed

section \<open>Page-set resolution\<close>

lemma tryCredential_frame:
  assumes "tryCredential E siteUrl c v s = (r, s')"
  shows "grows isWarned s s' \<and> cacheFiles s' = cacheFiles s \<and> clock s \<le> clock s'
    \<and> currentAccountIndex s' = currentAccountIndex s"
  using assms by (cases rule: tryCredential_cases) (simp_all add: grows_def)

lemma collectCredentials_frame:
  "collectCredentials E siteUrl cs v s = (r, s') \<Longrightarrow>
   grows isWarned s s' \<and> cacheFiles s' = cacheFiles s \<and> clock s \<le> clock s'"
proof (induction cs arbitrary: v s)
  case Nil
  then show ?case by simp
next
  case (Cons c cs)
  from Cons.prems have "andThen (tryCredential E siteUrl c v s)
      (\<lambda>v' s1. collectCredentials E siteUrl cs v' s1) = (r, s')"
    by simp
  then show ?case
  proof (cases rule: andThen_cases)
    case (continue v1 s1)
    from tryCredential_frame[OF continue(1)] Cons.IH[OF continue(2)] show ?thesis
      by (auto intro: grows_trans)
  next
    case (abort r0)
    from tryCredential_frame[OF abort(1)] show ?thesis by simp
  qed
qed

lemma buildPool_frame:
  assumes "buildPool E siteUrl cs s = (p, t)"
  shows "grows isWarned s t \<and> cacheFiles t = cacheFiles s \<and> clock s \<le> clock t"
  using assms
proof (cases rule: buildPool_cases)
  case (aborted r0)
  from collectCredentials_frame[OF aborted(1)] show ?thesis by (simp add: grows_def)
next
  case (empty v)
  from collectCredentials_frame[OF empty(1)] show ?thesis by (simp add: grows_def)
next
  case (built site s1)
  from collectCredentials_frame[OF built(1)] built(5) show ?thesis by (simp add: grows_def)
qed

lemma buildPool_Ok:
  assumes "buildPool E siteUrl cs s = (Ok site, t)"
  shows "validCredentials t \<noteq> [] \<and> currentAccountIndex t = 0 \<and> site \<noteq> []
    \<and> activeToken t = (Ok (accessToken (validCredentials t ! 0)), t)"
  using assms
  by (cases rule: buildPool_cases) (auto simp: activeToken_def)

lemma index_fromPool:
  assumes "\<not> falsy input" and "loadCredentials E (withEnvDefaults P options) = Ok creds"
    and "buildPool E (convertToSiteUrl E (the input)) creds s = (Ok site, s1)"
  shows "index E P input options s =
     fromPool E (withEnvDefaults P options) (cachePathOf E (convertToSiteUrl E (the input))) site s1"
  using assms by (simp add: index_def Let_def fromPool_def)

lemma resolvePages_no_list:
  assumes "explicitUrls = None \<or> explicitUrls = Some []"
    and "currentAccountIndex s < length (validCredentials s)"
    and "getSitemapPages E (clock s) (accessToken (validCredentials s ! currentAccountIndex s)) siteUrl
           = Inr (sitemaps, pgs)"
  shows "resolvePages E explicitUrls siteUrl s =
     (if sitemaps = [] then (Exited 1, tick s) else (Ok pgs, tick s))"
  using assms by (auto simp: resolvePages_def activeToken_def)

lemma no_sitemaps_exit:
  assumes "\<not> falsy input" and "loadCredentials E (withEnvDefaults P options) = Ok creds"
    and "buildPool E (convertToSiteUrl E (the input)) creds s = (Ok site, s1)"
    and "urls (withEnvDefaults P options) = None \<or> urls (withEnvDefaults P options) = Some []"
    and "getSitemapPages E (clock s1) (accessToken (validCredentials s1 ! 0)) site = Inr ([], pgs)"
  shows "index E P input options s = (Exited 1, tick s1)"
    and "cacheFiles (tick s1) = cacheFiles s" and "grows isWarned s (tick s1)"
proof -
  from buildPool_Ok[OF assms(3)] have idx: "currentAccountIndex s1 < length (validCredentials s1)"
    and z: "currentAccountIndex s1 = 0"
    by simp_all
  from assms(5) z have "getSitemapPages E (clock s1)
      (accessToken (validCredentials s1 ! currentAccountIndex s1)) site = Inr ([], pgs)"
    by simp
  from resolvePages_no_list[OF assms(4) idx this]
  show "index E P input options s = (Exited 1, tick s1)"
    by (simp add: index_fromPool[OF assms(1-3)] fromPool_def)
  from buildPool_frame[OF assms(3)]
  show "cacheFiles (tick s1) = cacheFiles s" and "grows isWarned s (tick s1)"
    by (simp_all add: grows_def)
qed

lemma statusPhase_no_pages:
  assumes "cacheFiles s cachePath \<noteq> Some Corrupt"
  shows "\<exists>c. statusPhase E cachePath siteUrl [] s =
           (Ok (), writeCache cachePath (s\<lparr>statusPerUrl := c, pagesPerStatus := (\<lambda>_. [])\<rparr>))"
proof (cases "cacheFiles s cachePath")
  case None
  then have "statusPhase E cachePath siteUrl [] s =
      (Ok (), writeCache cachePath (s\<lparr>statusPerUrl := Map.empty, pagesPerStatus := (\<lambda>_. [])\<rparr>))"
    by (simp add: statusPhase_def readCache_def)
  then show ?thesis by blast
next
  case (Some d)
  with assms obtain c where "d = Doc c" by (cases d) auto
  with Some have "statusPhase E cachePath siteUrl [] s =
      (Ok (), writeCache cachePath (s\<lparr>statusPerUrl := c, pagesPerStatus := (\<lambda>_. [])\<rparr>))"
    by (simp add: statusPhase_def readCache_def)
  then show ?thesis by blast
qed

lemma indexablePagesOf_empty [simp]: "indexablePagesOf (\<lambda>_. []) = []"
  by (simp add: indexablePagesOf_def)

lemma writeCache_simps [simp]:
  "trace (writeCache p s) = trace s @ [CacheWritten p]"
  "cacheFiles (writeCache p s) = (cacheFiles s)(p \<mapsto> Doc (statusPerUrl s))"
  "statusPerUrl (writeCache p s) = statusPerUrl s"
  "pagesPerStatus (writeCache p s) = pagesPerStatus s"
  "validCredentials (writeCache p s) = validCredentials s"
  "currentAccountIndex (writeCache p s) = currentAccountIndex s"
  "clock (writeCache p s) = clock s"
  by (simp_all add: writeCache_def)

lemma explicit_list_completes:
  assumes "\<not> falsy input" and "loadCredentials E (withEnvDefaults P options) = Ok creds"
    and "buildPool E (convertToSiteUrl E (the input)) creds s = (Ok site, s1)"
    and "urls (withEnvDefaults P options) = Some us" and "us \<noteq> []"
    and "checkCustomUrls E site us = Inr []"
    and "cacheFiles s (cachePathOf E (convertToSiteUrl E (the input))) \<noteq> Some Corrupt"
  shows "fst (index E P input options s) = Ok ()"
    and "trace (snd (index E P input options s))
           = trace s1 @ [CacheWritten (cachePathOf E (convertToSiteUrl E (the input)))]"
proof -
  let ?path = "cachePathOf E (convertToSiteUrl E (the input))"
  from assms(4,5,6) have res: "resolvePages E (urls (withEnvDefaults P options)) site s1 = (Ok [], s1)"
    by (simp add: resolvePages_def)
  from buildPool_frame[OF assms(3)] assms(7) have "cacheFiles s1 ?path \<noteq> Some Corrupt"
    by simp
  from statusPhase_no_pages[OF this, of E site] obtain c where
    "statusPhase E ?path site [] s1 =
       (Ok (), writeCache ?path (s1\<lparr>statusPerUrl := c, pagesPerStatus := (\<lambda>_. [])\<rparr>))"
    by blast
  with res have "index E P input options s =
      (Ok (), writeCache ?path (s1\<lparr>statusPerUrl := c, pagesPerStatus := (\<lambda>_. [])\<rparr>))"
    by (simp add: index_fromPool[OF assms(1-3)] fromPool_def)
  then show "fst (index E P input options s) = Ok ()"
    and "trace (snd (index E P input options s)) = trace s1 @ [CacheWritten ?path]"
    by simp_all
qed

lemma isWarned_excludes:
  "isWarned e \<Longrightarrow> \<not> isStatusCall e \<and> \<not> isCacheWritten e \<and> \<not> isProbeCall e \<and> \<not> isRequestCall e
     \<and> \<not> isRotated e"
  by (cases e) simp_all

text \<open>
  C6, as stated, fails for the explicit list that is empty: \<^verbatim>\<open>options.urls = []\<close> is kept by
  the defaults (an array is truthy) and is a list that resolves to empty, yet the run takes
  the sitemap branch and, with zero sitemaps, ends with exit status 1 without writing the
  cache.
\<close>

theorem zero_sitemaps_fatal_counterexample:
  "urls (withEnvDefaults noVars (noOptions\<lparr>urls := Some []\<rparr>)) = Some []
   \<and> checkCustomUrls bareSiteEnv ''b.test'' [] = Inr []
   \<and> fst (index bareSiteEnv noVars (Some ''b.test'') (noOptions\<lparr>urls := Some []\<rparr>) emptyWorld)
       = Exited 1
   \<and> occurrences isCacheWritten
        (trace (snd (index bareSiteEnv noVars (Some ''b.test'') (noOptions\<lparr>urls := Some []\<rparr>)
           emptyWorld))) = 0"
  by code_simp

text \<open>
  C6, amended. Suppose the pool was built. When there is no URL list to use (the options
  carry none and \<^verbatim>\<open>GIS_URLS\<close> is not set, or the options carry the empty list) and sitemap
  discovery answers zero sitemaps, the run ends with exit status 1 right after the
  discovery: since the start of the run there was no status call, no probe, no submission
  and no write of the cache. When the list in use (that of the options or, without one,
  that of \<^verbatim>\<open>GIS_URLS\<close>) is not empty and is normalised to the empty list (and the cache
  document, if there is one, parses), the run is not fatal, whatever the sitemaps are: it
  completes, and all it does after the pool is to write the cache.
\<close>

theorem zero_sitemaps_fatal:
  "\<not> falsy input \<and> loadCredentials E (withEnvDefaults P options) = Ok creds
   \<and> buildPool E (convertToSiteUrl E (the input)) creds s = (Ok site, s1) \<longrightarrow>
     (((urls options = None \<and> falsy (GIS_URLS P)) \<or> urls options = Some [])
        \<and> getSitemapPages E (clock s1) (accessToken (validCredentials s1 ! 0)) site = Inr ([], pgs)
      \<longrightarrow> index E P input options s = (Exited 1, tick s1)
          \<and> cacheFiles (tick s1) = cacheFiles s
          \<and> occurrences isStatusCall (trace (tick s1)) = occurrences isStatusCall (trace s)
          \<and> occurrences isProbeCall (trace (tick s1)) = occurrences isProbeCall (trace s)
          \<and> occurrences isRequestCall (trace (tick s1)) = occurrences isRequestCall (trace s)
          \<and> occurrences isCacheWritten (trace (tick s1)) = occurrences isCacheWritten (trace s))
     \<and> (urls (withEnvDefaults P options) = Some us \<and> us \<noteq> [] \<and> checkCustomUrls E site us = Inr []
          \<and> cacheFiles s (cachePathOf E (convertToSiteUrl E (the input))) \<noteq> Some Corrupt
      \<longrightarrow> fst (index E P input options s) = Ok ()
          \<and> trace (snd (index E P input options s))
              = trace s1 @ [CacheWritten (cachePathOf E (convertToSiteUrl E (the input)))])"
proof (intro impI conjI)
  assume pool: "\<not> falsy input \<and> loadCredentials E (withEnvDefaults P options) = Ok creds
   \<and> buildPool E (convertToSiteUrl E (the input)) creds s = (Ok site, s1)"
  then have a: "\<not> falsy input" and b: "loadCredentials E (withEnvDefaults P options) = Ok creds"
    and c: "buildPool E (convertToSiteUrl E (the input)) creds s = (Ok site, s1)"
    by blast+
  { assume h: "((urls options = None \<and> falsy (GIS_URLS P)) \<or> urls options = Some [])
        \<and> getSitemapPages E (clock s1) (accessToken (validCredentials s1 ! 0)) site = Inr ([], pgs)"
    then have "(urls options = None \<and> falsy (GIS_URLS P)) \<or> urls options = Some []"
      by blast
    then have u: "urls (withEnvDefaults P options) = None \<or> urls (withEnvDefaults P options) = Some []"
      by (auto simp: withEnvDefaults_def)
    from h have g: "getSitemapPages E (clock s1) (accessToken (validCredentials s1 ! 0)) site = Inr ([], pgs)"
      by blast
    note n = no_sitemaps_exit[OF a b c u g]
    show "index E P input options s = (Exited 1, tick s1)" by (rule n(1))
    show "cacheFiles (tick s1) = cacheFiles s" by (rule n(2))
    show "occurrences isStatusCall (trace (tick s1)) = occurrences isStatusCall (trace s)"
      by (rule grows_occurrences[OF n(3)]) (simp add: isWarned_excludes)
    show "occurrences isProbeCall (trace (tick s1)) = occurrences isProbeCall (trace s)"
      by (rule grows_occurrences[OF n(3)]) (simp add: isWarned_excludes)
    show "occurrences isRequestCall (trace (tick s1)) = occurrences isRequestCall (trace s)"
      by (rule grows_occurrences[OF n(3)]) (simp add: isWarned_excludes)
    show "occurrences isCacheWritten (trace (tick s1)) = occurrences isCacheWritten (trace s)"
      by (rule grows_occurrences[OF n(3)]) (simp add: isWarned_excludes) }
  { assume h: "urls (withEnvDefaults P options) = Some us \<and> us \<noteq> []
          \<and> checkCustomUrls E site us = Inr []
          \<and> cacheFiles s (cachePathOf E (convertToSiteUrl E (the input))) \<noteq> Some Corrupt"
    then have u: "urls (withEnvDefaults P options) = Some us"
      and ne: "us \<noteq> []" and k: "checkCustomUrls E site us = Inr []"
      and f: "cacheFiles s (cachePathOf E (convertToSiteUrl E (the input))) \<noteq> Some Corrupt"
      by blast+
    note n = explicit_list_completes[OF a b c u ne k f]
    show "fst (index E P input options s) = Ok ()" by (rule n(1))
    show "trace (snd (index E P input options s))
              = trace s1 @ [CacheWritten (cachePathOf E (convertToSiteUrl E (the input)))]"
      by (rule n(2)) }
qed

text \<open>
  One account and no sitemap. Without a URL list, and with the empty list: exit 1 with an
  empty trace. With the list \<^verbatim>\<open>["/x"]\<close>, which is normalised to nothing: the run completes
  and only writes the cache.
\<close>

theorem zero_sitemaps_fatal_witness:
  "index noSitemapEnv noVars (Some ''a.test'') noOptions emptyWorld
     = (Exited 1, tick (snd (buildPool noSitemapEnv ''a.test'' [accountA] emptyWorld)))
   \<and> trace (snd (index noSitemapEnv noVars (Some ''a.test'') noOptions emptyWorld)) = []
   \<and> index noSitemapEnv noVars (Some ''a.test'') (noOptions\<lparr>urls := Some []\<rparr>) emptyWorld
     = (Exited 1, tick (snd (buildPool noSitemapEnv ''a.test'' [accountA] emptyWorld)))
   \<and> getSitemapPages rejectUrlsEnv 2 ''token of a@x.test'' ''a.test'' = Inr ([], [])
   \<and> fst (index rejectUrlsEnv noVars (Some ''a.test'') (noOptions\<lparr>urls := Some [''/x'']\<rparr>) emptyWorld)
       = Ok ()
   \<and> trace (snd (index rejectUrlsEnv noVars (Some ''a.test'') (noOptions\<lparr>urls := Some [''/x'']\<rparr>)
        emptyWorld)) = [CacheWritten ''.cache/a.test.json'']"
proof -
  let ?s1 = "snd (buildPool noSitemapEnv ''a.test'' [accountA] emptyWorld)"
  let ?s2 = "snd (buildPool rejectUrlsEnv ''a.test'' [accountA] emptyWorld)"
  let ?o1 = "noOptions\<lparr>urls := Some []\<rparr>"
  let ?o2 = "noOptions\<lparr>urls := Some [''/x'']\<rparr>"
  have "fst (buildPool noSitemapEnv ''a.test'' [accountA] emptyWorld) = Ok ''a.test''"
    "fst (buildPool rejectUrlsEnv ''a.test'' [accountA] emptyWorld) = Ok ''a.test''"
    "convertToSiteUrl noSitemapEnv (the (Some ''a.test'')) = ''a.test''"
    "convertToSiteUrl rejectUrlsEnv (the (Some ''a.test'')) = ''a.test''"
    by code_simp+
  then have pools:
    "buildPool noSitemapEnv (convertToSiteUrl noSitemapEnv (the (Some ''a.test''))) [accountA] emptyWorld
       = (Ok ''a.test'', ?s1)"
    "buildPool rejectUrlsEnv (convertToSiteUrl rejectUrlsEnv (the (Some ''a.test''))) [accountA] emptyWorld
       = (Ok ''a.test'', ?s2)"
    by (simp_all add: prod_eq_iff)
  have pre1: "\<not> falsy (Some ''a.test'')"
    "loadCredentials noSitemapEnv (withEnvDefaults noVars noOptions) = Ok [accountA]"
    "urls noOptions = None" "falsy (GIS_URLS noVars)"
    "getSitemapPages noSitemapEnv (clock ?s1) (accessToken (validCredentials ?s1 ! 0)) ''a.test''
       = Inr ([], [])"
    "trace ?s1 = []"
    "loadCredentials noSitemapEnv (withEnvDefaults noVars ?o1) = Ok [accountA]"
    "urls ?o1 = Some []"
    by code_simp+
  have nofile: "cacheFiles emptyWorld
       (cachePathOf rejectUrlsEnv (convertToSiteUrl rejectUrlsEnv (the (Some ''a.test'')))) \<noteq> Some Corrupt"
    by (simp add: emptyWorld_def demoState_def)
  have pre2: "loadCredentials rejectUrlsEnv (withEnvDefaults noVars ?o2) = Ok [accountA]"
    "urls (withEnvDefaults noVars ?o2) = Some [''/x'']"
    "checkCustomUrls rejectUrlsEnv ''a.test'' [''/x''] = Inr []"
    "trace ?s2 = []"
    "cachePathOf rejectUrlsEnv (convertToSiteUrl rejectUrlsEnv (the (Some ''a.test''))) = ''.cache/a.test.json''"
    "getSitemapPages rejectUrlsEnv 2 ''token of a@x.test'' ''a.test'' = Inr ([], [])"
    by code_simp+
  from zero_sitemaps_fatal[where input = "Some ''a.test''" and E = noSitemapEnv and P = noVars
      and options = noOptions and creds = "[accountA]" and s = emptyWorld and site = "''a.test''"
      and ?s1.0 = ?s1 and pgs = "[]"] pre1(1-5) pools(1)
  have 1: "index noSitemapEnv noVars (Some ''a.test'') noOptions emptyWorld = (Exited 1, tick ?s1)"
    by simp
  from zero_sitemaps_fatal[where input = "Some ''a.test''" and E = noSitemapEnv and P = noVars
      and options = ?o1 and creds = "[accountA]" and s = emptyWorld and site = "''a.test''"
      and ?s1.0 = ?s1 and pgs = "[]"] pre1(1,5,7,8) pools(1)
  have 2: "index noSitemapEnv noVars (Some ''a.test'') ?o1 emptyWorld = (Exited 1, tick ?s1)"
    by simp
  from zero_sitemaps_fatal[where input = "Some ''a.test''" and E = rejectUrlsEnv and P = noVars
      and options = ?o2 and creds = "[accountA]" and s = emptyWorld and site = "''a.test''"
      and ?s1.0 = ?s2 and us = "[''/x'']"] pre1(1) pre2(1-5) pools(2) nofile
  have 3: "fst (index rejectUrlsEnv noVars (Some ''a.test'') ?o2 emptyWorld) = Ok ()"
    "trace (snd (index rejectUrlsEnv noVars (Some ''a.test'') ?o2 emptyWorld))
       = [CacheWritten ''.cache/a.test.json'']"
    by simp_all
  from 1 2 3 pre1(6) pre2(6) show ?thesis by simp
qed

text \<open>
  C9. An explicit URL list that is empty is not used: when \<^verbatim>\<open>GIS_URLS\<close> is not set, the run
  with \<^verbatim>\<open>options.urls = []\<close> is the run without a list, step for step; and with the pool
  built and zero sitemaps discovered it ends with exit status 1.
\<close>

theorem empty_list_falls_through:
  "(falsy (GIS_URLS P) \<longrightarrow>
      index E P input (options\<lparr>urls := Some []\<rparr>) s = index E P input (options\<lparr>urls := None\<rparr>) s)
   \<and> (\<not> falsy input \<and> loadCredentials E (withEnvDefaults P (options\<lparr>urls := Some []\<rparr>)) = Ok creds
        \<and> buildPool E (convertToSiteUrl E (the input)) creds s = (Ok site, s1)
        \<and> getSitemapPages E (clock s1) (accessToken (validCredentials s1 ! 0)) site = Inr ([], pgs)
      \<longrightarrow> index E P input (options\<lparr>urls := Some []\<rparr>) s = (Exited 1, tick s1)
          \<and> occurrences isStatusCall (trace (tick s1)) = occurrences isStatusCall (trace s))"
proof (intro conjI impI)
  assume g: "falsy (GIS_URLS P)"
  have r: "resolvePages E (Some []) site' s' = resolvePages E None site' s'" for site' s'
    by (simp add: resolvePages_def)
  from g show "index E P input (options\<lparr>urls := Some []\<rparr>) s = index E P input (options\<lparr>urls := None\<rparr>) s"
    by (simp add: index_def Let_def withEnvDefaults_def loadCredentials_def rpmRetryOf_def r)
next
  assume h: "\<not> falsy input \<and> loadCredentials E (withEnvDefaults P (options\<lparr>urls := Some []\<rparr>)) = Ok creds
        \<and> buildPool E (convertToSiteUrl E (the input)) creds s = (Ok site, s1)
        \<and> getSitemapPages E (clock s1) (accessToken (validCredentials s1 ! 0)) site = Inr ([], pgs)"
  then have a: "\<not> falsy input"
    and b: "loadCredentials E (withEnvDefaults P (options\<lparr>urls := Some []\<rparr>)) = Ok creds"
    and c: "buildPool E (convertToSiteUrl E (the input)) creds s = (Ok site, s1)"
    and d: "getSitemapPages E (clock s1) (accessToken (validCredentials s1 ! 0)) site = Inr ([], pgs)"
    by blast+
  have u: "urls (withEnvDefaults P (options\<lparr>urls := Some []\<rparr>)) = None
      \<or> urls (withEnvDefaults P (options\<lparr>urls := Some []\<rparr>)) = Some []"
    by (simp add: withEnvDefaults_def)
  note n = no_sitemaps_exit[OF a b c u d]
  show "index E P input (options\<lparr>urls := Some []\<rparr>) s = (Exited 1, tick s1)"
    by (rule n(1))
  show "occurrences isStatusCall (trace (tick s1)) = occurrences isStatusCall (trace s)"
    by (rule grows_occurrences[OF n(3)]) (simp add: isWarned_excludes)
qed

theorem empty_list_falls_through_witness:
  "falsy (GIS_URLS noVars)
   \<and> index noSitemapEnv noVars (Some ''a.test'') (noOptions\<lparr>urls := Some []\<rparr>) emptyWorld
       = index noSitemapEnv noVars (Some ''a.test'') (noOptions\<lparr>urls := None\<rparr>) emptyWorld
   \<and> fst (index noSitemapEnv noVars (Some ''a.test'') (noOptions\<lparr>urls := Some []\<rparr>) emptyWorld)
       = Exited 1"
proof -
  let ?s1 = "snd (buildPool noSitemapEnv ''a.test'' [accountA] emptyWorld)"
  let ?o = "noOptions\<lparr>urls := Some []\<rparr>"
  have "fst (buildPool noSitemapEnv ''a.test'' [accountA] emptyWorld) = Ok ''a.test''"
    "convertToSiteUrl noSitemapEnv (the (Some ''a.test'')) = ''a.test''"
    by code_simp+
  then have pool:
    "buildPool noSitemapEnv (convertToSiteUrl noSitemapEnv (the (Some ''a.test''))) [accountA] emptyWorld
       = (Ok ''a.test'', ?s1)"
    by (simp add: prod_eq_iff)
  have pre: "falsy (GIS_URLS noVars)" "\<not> falsy (Some ''a.test'')"
    "loadCredentials noSitemapEnv (withEnvDefaults noVars ?o) = Ok [accountA]"
    "getSitemapPages noSitemapEnv (clock ?s1) (accessToken (validCredentials ?s1 ! 0)) ''a.test''
       = Inr ([], [])"
    by code_simp+
  from empty_list_falls_through[where input = "Some ''a.test''" and E = noSitemapEnv and P = noVars
      and options = noOptions and creds = "[accountA]" and s = emptyWorld and site = "''a.test''"
      and ?s1.0 = ?s1 and pgs = "[]"] pre pool
  have same: "index noSitemapEnv noVars (Some ''a.test'') ?o emptyWorld
       = index noSitemapEnv noVars (Some ''a.test'') (noOptions\<lparr>urls := None\<rparr>) emptyWorld"
    and exit: "index noSitemapEnv noVars (Some ''a.test'') ?o emptyWorld = (Exited 1, tick ?s1)"
    by blast+
  from exit have "fst (index noSitemapEnv noVars (Some ''a.test'') ?o emptyWorld) = Exited 1"
    by simp
  with same pre(1) show ?thesis by blast
qed

section \<open>Phase B: the cache during the status check\<close>

lemma fresh_iff:
  "fresh E k0 k1 res \<longleftrightarrow>
     (\<forall>k. k0 \<le> k \<and> k \<le> k1 \<longrightarrow> \<not> shouldRecheck (dateNow E k) (status res) (lastCheckedAt res))"
  unfolding fresh_def set_upt by auto

lemma stale_iff:
  "stale E k0 k1 res \<longleftrightarrow>
     (\<forall>k. k0 \<le> k \<and> k \<le> k1 \<longrightarrow> shouldRecheck (dateNow E k) (status res) (lastCheckedAt res))"
  unfolding stale_def set_upt by auto

lemma sameWindow_iff:
  "sameWindow E k0 k1 \<longleftrightarrow>
     (\<forall>k k'. k0 \<le> k \<and> k \<le> k1 \<and> k0 \<le> k' \<and> k' \<le> k1 \<longrightarrow>
        dateNow E k' - CACHE_TIMEOUT \<le> dateNow E k)"
  unfolding sameWindow_def set_upt by auto

lemma stamped_iff:
  "stamped E k0 t u \<longleftrightarrow>
     (\<exists>res k. statusPerUrl t u = Some res \<and> lastCheckedAt res = Some (dateNow E k)
        \<and> k0 \<le> k \<and> k < clock t \<and> surfaced t u (status res))"
  unfolding stamped_def set_upt by (auto split: option.splits)

lemma lastStatusFor_Nil [simp]: "lastStatusFor u [] = None"
  by (simp add: lastStatusFor_def)

lemma lastStatusFor_Cons [simp]:
  "lastStatusFor u (e # tr) =
     (case lastStatusFor u tr of
        Some st \<Rightarrow> Some st
      | None \<Rightarrow> (if isStatusCallFor u e then (case e of StatusCall tok url st \<Rightarrow> Some st | _ \<Rightarrow> None)
                 else None))"
  by (cases e) (simp_all add: lastStatusFor_def split: option.splits)

lemma lastStatusFor_append [simp]:
  "lastStatusFor u (tr @ tr') =
     (case lastStatusFor u tr' of Some st \<Rightarrow> Some st | None \<Rightarrow> lastStatusFor u tr)"
  unfolding lastStatusFor_def by simp

lemma statusLoop_for:
  "statusLoop E siteUrl url st rc s = (r, s') \<Longrightarrow>
   grows (\<lambda>e. isStatusCallFor url e \<or> isRotated e) s s'"
proof (induction rule: statusLoop_induct)
  case (failed st rc s tok st' r0 r s')
  have "grows (\<lambda>e. isStatusCallFor url e \<or> isRotated e) s (tick (emit (StatusCall tok url st') s))"
    by simp
  moreover have "grows (\<lambda>e. isStatusCallFor url e \<or> isRotated e)
      (tick (emit (StatusCall tok url st') s)) s'"
    using rotateAccount_grows[OF failed(6)] by (rule grows_mono) simp
  ultimately show ?case by (rule grows_trans)
next
  case (retry st rc s tok st' x s2 r s')
  have "grows (\<lambda>e. isStatusCallFor url e \<or> isRotated e) s (tick (emit (StatusCall tok url st') s))"
    by simp
  moreover have "grows (\<lambda>e. isStatusCallFor url e \<or> isRotated e)
      (tick (emit (StatusCall tok url st') s)) s2"
    using rotateAccount_grows[OF retry(6)] by (rule grows_mono) simp
  ultimately show ?case using retry(8) by (blast intro: grows_trans)
qed simp_all

lemma statusLoop_surfaced_for:
  assumes "statusLoop E siteUrl url st rc s = (r, s')" and "r = Ok st'"
    and "rc < length (validCredentials s)"
  shows "lastStatusFor url (trace s') = Some st'"
  using assms
proof (induction arbitrary: st' rule: statusLoop_induct)
  case (retry st rc s tok st0 x s2 r s')
  note len = rotateAccount_length[OF retry(6)]
  note tr = rotateAccount_effect(1)[OF retry(6), of rc]
  show ?case
  proof (cases "Suc rc < length (validCredentials s2)")
    case True
    from retry(8)[OF retry(9) True] show ?thesis .
  next
    case False
    with statusLoop_surfaced[OF retry(7) retry(9)] have "st' = st0" "s' = s2" by simp_all
    with retry(1) tr show ?thesis by simp
  qed
qed auto

text \<open>What a live fetch leaves behind.\<close>

lemma fetchLive_frame:
  assumes "fetchLive E siteUrl url s = (r, t)"
  shows "grows (\<lambda>e. isStatusCallFor url e \<or> isRotated e) s t \<and> cacheFiles t = cacheFiles s
    \<and> clock s \<le> clock t \<and> length (validCredentials t) = length (validCredentials s)
    \<and> (\<forall>u. u \<noteq> url \<longrightarrow> statusPerUrl t u = statusPerUrl s u)
    \<and> ((\<forall>x. r \<noteq> Ok x) \<longrightarrow> statusPerUrl t = statusPerUrl s \<and> pagesPerStatus t = pagesPerStatus s)"
  using assms
proof (cases rule: fetchLive_cases)
  case (fetched st s1)
  note f = statusLoop_frame[OF fetched(1)] statusLoop_for[OF fetched(1)]
    statusLoop_length[OF fetched(1)]
  have "grows (\<lambda>e. isStatusCallFor url e \<or> isRotated e) s t"
    using f(2) fetched(3) by (simp add: grows_def)
  then show ?thesis using f(1,3) fetched(2,3) by simp
next
  case (aborted r0)
  note f = statusLoop_frame[OF aborted(1)] statusLoop_for[OF aborted(1)]
    statusLoop_length[OF aborted(1)]
  with aborted(3) show ?thesis by simp
qed

lemma fetchLive_Ok:
  assumes "fetchLive E siteUrl url s = (Ok x, t)"
  obtains st k where "clock s \<le> k" "clock t = Suc k"
    "statusPerUrl t = (statusPerUrl s)(url \<mapsto> \<lparr>status = st, lastCheckedAt = Some (dateNow E k)\<rparr>)"
    "pagesPerStatus t = (pagesPerStatus s)(Some st := pagesPerStatus s (Some st) @ [url])"
    "surfaced t url st"
  using assms
proof (cases rule: fetchLive_cases)
  case (fetched st s1)
  note f = statusLoop_frame[OF fetched(1)]
  have a: "clock s \<le> clock s1" using f by simp
  have b: "clock t = Suc (clock s1)" using fetched(3) by simp
  have c: "statusPerUrl t = (statusPerUrl s)
      (url \<mapsto> \<lparr>status = st, lastCheckedAt = Some (dateNow E (clock s1))\<rparr>)"
    using f fetched(3) by simp
  have d: "pagesPerStatus t = (pagesPerStatus s)(Some st := pagesPerStatus s (Some st) @ [url])"
    using f fetched(3) by simp
  from statusLoop_length[OF fetched(1)] fetched(3)
  have len: "length (validCredentials t) = length (validCredentials s)" by simp
  have e: "surfaced t url st"
  proof (cases "validCredentials s = []")
    case True
    then have "\<not> 0 < length (validCredentials s)" by simp
    with statusLoop_surfaced[OF fetched(1) refl] have "st = Error" by simp
    moreover from True len have "validCredentials t = []" by simp
    ultimately show ?thesis by (simp add: surfaced_def)
  next
    case False
    then have "0 < length (validCredentials s)" by simp
    from statusLoop_surfaced_for[OF fetched(1) refl this] fetched(3)
    have "lastStatusFor url (trace t) = Some st" by simp
    moreover from False len have "validCredentials t \<noteq> []" by auto
    ultimately show ?thesis by (simp add: surfaced_def)
  qed
  from a b c d e show ?thesis by (rule that)
next
  case (aborted r0)
  then show ?thesis by simp
qed

lemma getProperty_cases:
  obtains (undefined) "getProperty c u = Undefined" "c u = None" "u \<notin> set objectPrototypeMembers"
  | (inherited) "getProperty c u = Inherited" "c u = None" "u \<in> set objectPrototypeMembers"
  | (own) res where "getProperty c u = Own res" "c u = Some res"
  by (cases "c u"; cases "u \<in> set objectPrototypeMembers") (auto simp: getProperty_def)

lemma getProperty_Some [simp]: "c u = Some res \<Longrightarrow> getProperty c u = Own res"
  by (simp add: getProperty_def)

lemma getProperty_Own [simp]: "getProperty c u = Own res \<longleftrightarrow> c u = Some res"
  by (auto simp: getProperty_def split: option.splits)

lemma getProperty_same: "c' u = c u \<Longrightarrow> getProperty c' u = getProperty c u"
  by (simp add: getProperty_def)

lemma checkPage_cases:
  assumes "checkPage E siteUrl url s = (r, t)"
  obtains
    (hit) res where "statusPerUrl s url = Some res"
      "\<not> shouldRecheck (dateNow E (clock s)) (status res) (lastCheckedAt res)"
      "r = Ok ()" "t = addPage (Some (status res)) url (tick s)"
  | (member) "getProperty (statusPerUrl s) url = Inherited"
      "r = Ok ()" "t = addPage None url (tick s)"
  | (miss) "getProperty (statusPerUrl s) url = Undefined" "fetchLive E siteUrl url s = (r, t)"
  | (stale) res where "statusPerUrl s url = Some res"
      "shouldRecheck (dateNow E (clock s)) (status res) (lastCheckedAt res)"
      "fetchLive E siteUrl url (tick s) = (r, t)"
proof (cases rule: getProperty_cases[of "statusPerUrl s" url])
  case undefined
  with assms have "fetchLive E siteUrl url s = (r, t)"
    by (simp add: checkPage_def)
  with undefined(1) show ?thesis by (rule miss)
next
  case inherited
  with assms have "r = Ok ()" "t = addPage None url (tick s)"
    by (simp_all add: checkPage_def)
  with inherited(1) show ?thesis by (rule member)
next
  case (own res)
  show ?thesis
  proof (cases "shouldRecheck (dateNow E (clock s)) (status res) (lastCheckedAt res)")
    case True
    with assms own(1) have "fetchLive E siteUrl url (tick s) = (r, t)"
      by (simp add: checkPage_def)
    with own(2) True show ?thesis by (rule stale)
  next
    case False
    with assms own(1) have "r = Ok ()" "t = addPage (Some (status res)) url (tick s)"
      by (simp_all add: checkPage_def)
    with own(2) False show ?thesis by (rule hit)
  qed
qed

lemma checkPage_frame:
  assumes "checkPage E siteUrl url s = (r, t)"
  shows "grows (\<lambda>e. isStatusCallFor url e \<or> isRotated e) s t \<and> cacheFiles t = cacheFiles s
    \<and> clock s \<le> clock t \<and> length (validCredentials t) = length (validCredentials s)
    \<and> (\<forall>u. u \<noteq> url \<longrightarrow> statusPerUrl t u = statusPerUrl s u)"
  using assms
proof (cases rule: checkPage_cases)
  case (hit res)
  then show ?thesis by (simp add: grows_def)
next
  case member
  then show ?thesis by (simp add: grows_def)
next
  case miss
  from fetchLive_frame[OF miss(2)] show ?thesis by simp
next
  case (stale res)
  note f = fetchLive_frame[OF stale(3)]
  have "grows (\<lambda>e. isStatusCallFor url e \<or> isRotated e) s t"
    using f by (simp add: grows_def)
  with f show ?thesis by simp
qed

lemma other_status_call:
  "u \<noteq> url \<Longrightarrow> isStatusCallFor url e \<or> isRotated e \<Longrightarrow> \<not> isStatusCallFor u e"
  by (cases e) simp_all

lemma grows_lastStatusFor:
  assumes "grows (\<lambda>e. isStatusCallFor url e \<or> isRotated e) s t" and "u \<noteq> url"
  shows "lastStatusFor u (trace t) = lastStatusFor u (trace s)"
proof -
  from assms(1) obtain evs where tr: "trace t = trace s @ evs"
    and all: "list_all (\<lambda>e. isStatusCallFor url e \<or> isRotated e) evs"
    by (blast dest: growsD)
  from all assms(2) have "filter (isStatusCallFor u) evs = []"
    by (auto simp: list_all_iff filter_empty_conv dest: other_status_call)
  then have "lastStatusFor u evs = None" by (simp add: lastStatusFor_def)
  with tr show ?thesis by simp
qed

lemma served_same: "c' u = c u \<Longrightarrow> served E k0 k1 c u \<Longrightarrow> served E k0 k1 c' u"
  by (simp add: served_def getProperty_def)

lemma due_same: "c' u = c u \<Longrightarrow> due E k0 k1 c u \<Longrightarrow> due E k0 k1 c' u"
  by (simp add: due_def getProperty_def)

lemma filedUnder_same: "c' u = c u \<Longrightarrow> filedUnder c' u = filedUnder c u"
  by (simp add: filedUnder_def getProperty_def)

text \<open>One page: a value that is served is left as it is, and no status call is made for it.\<close>

lemma checkPage_served:
  assumes run: "checkPage E siteUrl url s = (r, t)"
    and sv: "served E k0 k1 (statusPerUrl s) u" and k: "k0 \<le> clock s" "clock s \<le> k1"
  shows "statusPerUrl t u = statusPerUrl s u
    \<and> occurrences (isStatusCallFor u) (trace t) = occurrences (isStatusCallFor u) (trace s)"
proof (cases "u = url")
  case False
  note f = checkPage_frame[OF run]
  from f have g: "grows (\<lambda>e. isStatusCallFor url e \<or> isRotated e) s t" by blast
  have "occurrences (isStatusCallFor u) (trace t) = occurrences (isStatusCallFor u) (trace s)"
    by (rule grows_occurrences[OF g]) (rule other_status_call[OF False])
  with f False show ?thesis by simp
next
  case True
  from run show ?thesis
  proof (cases rule: checkPage_cases)
    case (hit res)
    then show ?thesis by simp
  next
    case member
    then show ?thesis by simp
  next
    case miss
    with sv True show ?thesis by (simp add: served_def)
  next
    case (stale res)
    from sv True stale(1) have "fresh E k0 k1 res" by (simp add: served_def)
    with k have "\<not> shouldRecheck (dateNow E (clock s)) (status res) (lastCheckedAt res)"
      by (simp add: fresh_iff)
    with stale(2) show ?thesis by simp
  qed
qed

text \<open>One page: a live fetch that returns stamps the record of its URL.\<close>

lemma fetchLive_stamps:
  assumes run: "fetchLive E siteUrl url s = (Ok x, t)" and k: "k0 \<le> clock s"
  shows "stamped E k0 t url"
proof -
  from run obtain st k' where a: "clock s \<le> k'" "clock t = Suc k'"
    and c: "statusPerUrl t = (statusPerUrl s)(url \<mapsto> \<lparr>status = st, lastCheckedAt = Some (dateNow E k')\<rparr>)"
    and e: "surfaced t url st"
    by (rule fetchLive_Ok)
  from a k have "k0 \<le> k'" "k' < clock t" by simp_all
  with c e show ?thesis unfolding stamped_iff by auto
qed

lemma checkPage_stamps:
  assumes run: "checkPage E siteUrl url s = (Ok x, t)"
    and d: "due E k0 k1 (statusPerUrl s) url" and k: "k0 \<le> clock s" "clock s \<le> k1"
  shows "stamped E k0 t url"
  using run
proof (cases rule: checkPage_cases)
  case (hit res)
  from d hit(1) have "stale E k0 k1 res" by (simp add: due_def)
  with k have "shouldRecheck (dateNow E (clock s)) (status res) (lastCheckedAt res)"
    by (simp add: stale_iff)
  with hit(2) show ?thesis by simp
next
  case member
  with d show ?thesis by (simp add: due_def)
next
  case miss
  from fetchLive_stamps[OF miss(2) k(1)] show ?thesis .
next
  case (stale res)
  from k(1) have "k0 \<le> clock (tick s)" by simp
  from fetchLive_stamps[OF stale(3) this] show ?thesis .
qed

text \<open>One page: a record stamped earlier in the phase stays stamped.\<close>

lemma checkPage_stamped:
  assumes run: "checkPage E siteUrl url s = (Ok x, t)" and st: "stamped E k0 s u"
  shows "stamped E k0 t u"
proof -
  from st obtain res k where r: "statusPerUrl s u = Some res"
    and k: "k0 \<le> k" "k < clock s" "lastCheckedAt res = Some (dateNow E k)"
    and a: "surfaced s u (status res)"
    unfolding stamped_iff by blast
  note f = checkPage_frame[OF run]
  from f have len: "length (validCredentials t) = length (validCredentials s)" by blast
  then have same: "validCredentials t = [] \<longleftrightarrow> validCredentials s = []"
    by (metis length_0_conv)
  from f have cl: "clock s \<le> clock t" by blast
  have keep: "stamped E k0 t u"
    if "statusPerUrl t u = statusPerUrl s u" "lastStatusFor u (trace t) = lastStatusFor u (trace s)"
  proof -
    from k cl have "k0 \<le> k" "k < clock t" by simp_all
    moreover from a that(2) same have "surfaced t u (status res)" by (simp add: surfaced_def)
    ultimately show ?thesis using k(3) that(1) r unfolding stamped_iff by auto
  qed
  show ?thesis
  proof (cases "u = url")
    case False
    from f have g: "grows (\<lambda>e. isStatusCallFor url e \<or> isRotated e) s t" by blast
    from f False have "statusPerUrl t u = statusPerUrl s u" by simp
    then show ?thesis by (rule keep) (rule grows_lastStatusFor[OF g False])
  next
    case True
    from run show ?thesis
    proof (cases rule: checkPage_cases)
      case (hit res')
      show ?thesis by (rule keep) (simp_all add: hit)
    next
      case member
      with r True show ?thesis by (simp add: getProperty_def)
    next
      case miss
      with r True show ?thesis by (simp add: getProperty_def)
    next
      case (stale res')
      from k have "k0 \<le> clock (tick s)" by simp
      from fetchLive_stamps[OF stale(3) this] True show ?thesis by simp
    qed
  qed
qed

lemma checkPage_kept:
  assumes run: "checkPage E siteUrl url s = (r, t)"
  shows "keptOrStamped E s t u"
proof (cases "u = url")
  case False
  with checkPage_frame[OF run] show ?thesis by (simp add: keptOrStamped_def)
next
  case True
  have live: "keptOrStamped E s t url" if fl: "fetchLive E siteUrl url s0 = (r, t)"
    and s0: "statusPerUrl s0 = statusPerUrl s" "clock s \<le> clock s0" for s0
  proof (cases r)
    case (Ok x)
    with fl have "fetchLive E siteUrl url s0 = (Ok x, t)" by simp
    then obtain st k where "clock s0 \<le> k" "clock t = Suc k"
      "statusPerUrl t = (statusPerUrl s0)(url \<mapsto> \<lparr>status = st, lastCheckedAt = Some (dateNow E k)\<rparr>)"
      by (rule fetchLive_Ok)
    with s0 have "statusPerUrl t url = Some \<lparr>status = st, lastCheckedAt = Some (dateNow E k)\<rparr>
        \<and> lastCheckedAt \<lparr>status = st, lastCheckedAt = Some (dateNow E k)\<rparr> = Some (dateNow E k)
        \<and> clock s \<le> k \<and> k < clock t"
      by simp
    then show ?thesis unfolding keptOrStamped_def by blast
  next
    case (Thrown msg)
    with fetchLive_frame[OF fl] s0 show ?thesis by (simp add: keptOrStamped_def)
  next
    case (Exited c)
    with fetchLive_frame[OF fl] s0 show ?thesis by (simp add: keptOrStamped_def)
  qed
  from run have "keptOrStamped E s t url"
  proof (cases rule: checkPage_cases)
    case (hit res)
    then show ?thesis by (simp add: keptOrStamped_def)
  next
    case member
    then show ?thesis by (simp add: keptOrStamped_def)
  next
    case miss
    show ?thesis by (rule live[OF miss(2)]) simp_all
  next
    case (stale res)
    show ?thesis by (rule live[OF stale(3)]) simp_all
  qed
  with True show ?thesis by simp
qed

lemma keptOrStamped_trans:
  assumes "keptOrStamped E s m u" and "keptOrStamped E m t u"
    and "clock s \<le> clock m" and "clock m \<le> clock t"
  shows "keptOrStamped E s t u"
proof -
  from assms(2) consider (kept) "statusPerUrl t u = statusPerUrl m u"
    | (stamped) res k where "statusPerUrl t u = Some res" "lastCheckedAt res = Some (dateNow E k)"
        "clock m \<le> k" "k < clock t"
    unfolding keptOrStamped_def by blast
  then show ?thesis
  proof cases
    case kept
    from assms(1) consider "statusPerUrl m u = statusPerUrl s u"
      | res k where "statusPerUrl m u = Some res" "lastCheckedAt res = Some (dateNow E k)"
        "clock s \<le> k" "k < clock m"
      unfolding keptOrStamped_def by blast
    then show ?thesis
    proof cases
      case 1
      with kept show ?thesis by (simp add: keptOrStamped_def)
    next
      case (2 res k)
      with kept assms(4) have "statusPerUrl t u = Some res \<and> lastCheckedAt res = Some (dateNow E k)
            \<and> clock s \<le> k \<and> k < clock t"
        by simp
      then show ?thesis unfolding keptOrStamped_def by blast
    qed
  next
    case (stamped res k)
    with assms(3) have "statusPerUrl t u = Some res \<and> lastCheckedAt res = Some (dateNow E k)
            \<and> clock s \<le> k \<and> k < clock t"
      by simp
    then show ?thesis unfolding keptOrStamped_def by blast
  qed
qed

text \<open>The whole list.\<close>

lemma batch_effect:
  "batch (checkPage E siteUrl) pages s = (r, t) \<Longrightarrow>
   grows (\<lambda>e. isStatusCall e \<or> isRotated e) s t \<and> cacheFiles t = cacheFiles s
   \<and> clock s \<le> clock t \<and> length (validCredentials t) = length (validCredentials s)
   \<and> (\<forall>u. u \<notin> set pages \<longrightarrow> statusPerUrl t u = statusPerUrl s u)
   \<and> (\<forall>u. keptOrStamped E s t u)"
proof (induction pages arbitrary: s)
  case Nil
  then show ?case by (simp add: keptOrStamped_def)
next
  case (Cons url rest)
  have wider: "grows (\<lambda>e. isStatusCall e \<or> isRotated e) a b"
    if "grows (\<lambda>e. isStatusCallFor url e \<or> isRotated e) a b" for a b
    using that by (rule grows_mono) (auto elim: isStatusCallFor.elims)
  from Cons.prems have "andThen (checkPage E siteUrl url s)
      (\<lambda>_ s'. batch (checkPage E siteUrl) rest s') = (r, t)"
    by simp
  then show ?case
  proof (cases rule: andThen_cases)
    case (continue x m)
    from checkPage_frame[OF continue(1)]
    have a0: "grows (\<lambda>e. isStatusCallFor url e \<or> isRotated e) s m" and a2: "cacheFiles m = cacheFiles s"
      and a3: "clock s \<le> clock m" and a4: "length (validCredentials m) = length (validCredentials s)"
      and a5: "\<And>u. u \<noteq> url \<Longrightarrow> statusPerUrl m u = statusPerUrl s u"
      by blast+
    note a1 = wider[OF a0]
    from Cons.IH[OF continue(2)]
    have b1: "grows (\<lambda>e. isStatusCall e \<or> isRotated e) m t" and b2: "cacheFiles t = cacheFiles m"
      and b3: "clock m \<le> clock t" and b4: "length (validCredentials t) = length (validCredentials m)"
      and b5: "\<And>u. u \<notin> set rest \<Longrightarrow> statusPerUrl t u = statusPerUrl m u"
      and b6: "\<And>u. keptOrStamped E m t u"
      by blast+
    have c1: "grows (\<lambda>e. isStatusCall e \<or> isRotated e) s t"
      by (rule grows_trans[OF a1 b1])
    have c2: "cacheFiles t = cacheFiles s" by (simp only: a2 b2)
    have c3: "clock s \<le> clock t" by (rule order_trans[OF a3 b3])
    have c4: "length (validCredentials t) = length (validCredentials s)" by (simp only: a4 b4)
    have c5: "statusPerUrl t u = statusPerUrl s u" if "u \<notin> set (url # rest)" for u
    proof -
      from that have n: "u \<notin> set rest" "u \<noteq> url" by simp_all
      show ?thesis by (rule trans[OF b5[OF n(1)] a5[OF n(2)]])
    qed
    have c6: "keptOrStamped E s t u" for u
      by (rule keptOrStamped_trans[OF checkPage_kept[OF continue(1)] b6 a3 b3])
    from c1 c2 c3 c4 c5 c6 show ?thesis by blast
  next
    case (abort r0)
    from checkPage_frame[OF abort(1)]
    have a0: "grows (\<lambda>e. isStatusCallFor url e \<or> isRotated e) s t" and a2: "cacheFiles t = cacheFiles s"
      and a3: "clock s \<le> clock t" and a4: "length (validCredentials t) = length (validCredentials s)"
      and a5: "\<And>u. u \<noteq> url \<Longrightarrow> statusPerUrl t u = statusPerUrl s u"
      by blast+
    note a1 = wider[OF a0]
    have c5: "statusPerUrl t u = statusPerUrl s u" if "u \<notin> set (url # rest)" for u
      using that by (simp add: a5)
    have c6: "keptOrStamped E s t u" for u
      by (rule checkPage_kept[OF abort(1)])
    from a1 a2 a3 a4 c5 c6 show ?thesis by blast
  qed
qed

lemma batch_clock:
  assumes "batch (checkPage E siteUrl) pages s = (r, t)"
  shows "clock s \<le> clock t"
  using batch_effect[OF assms] by blast

lemma batch_served:
  "batch (checkPage E siteUrl) pages s = (r, t) \<Longrightarrow> served E k0 k1 (statusPerUrl s) u \<Longrightarrow>
   k0 \<le> clock s \<Longrightarrow> clock t \<le> k1 \<Longrightarrow>
   statusPerUrl t u = statusPerUrl s u
   \<and> occurrences (isStatusCallFor u) (trace t) = occurrences (isStatusCallFor u) (trace s)"
proof (induction pages arbitrary: s)
  case Nil
  then show ?case by simp
next
  case (Cons url rest)
  from Cons.prems(1) have "andThen (checkPage E siteUrl url s)
      (\<lambda>_ s'. batch (checkPage E siteUrl) rest s') = (r, t)"
    by simp
  then show ?case
  proof (cases rule: andThen_cases)
    case (continue x m)
    from checkPage_frame[OF continue(1)] have sm: "clock s \<le> clock m" by blast
    from batch_clock[OF continue(2)] have mt: "clock m \<le> clock t" .
    from sm mt Cons.prems(4) have "clock s \<le> k1" by simp
    from checkPage_served[OF continue(1) Cons.prems(2,3) this]
    have a: "statusPerUrl m u = statusPerUrl s u"
      and b: "occurrences (isStatusCallFor u) (trace m) = occurrences (isStatusCallFor u) (trace s)"
      by simp_all
    have "served E k0 k1 (statusPerUrl m) u"
      by (rule served_same[of "statusPerUrl m" u "statusPerUrl s", OF a Cons.prems(2)])
    moreover from sm Cons.prems(3) have "k0 \<le> clock m" by simp
    ultimately have "statusPerUrl t u = statusPerUrl m u
        \<and> occurrences (isStatusCallFor u) (trace t) = occurrences (isStatusCallFor u) (trace m)"
      using Cons.prems(4) by (rule Cons.IH[OF continue(2)])
    with a b show ?thesis by simp
  next
    case (abort r0)
    from checkPage_frame[OF abort(1)] Cons.prems(4) have "clock s \<le> k1" by simp
    from checkPage_served[OF abort(1) Cons.prems(2,3) this] show ?thesis .
  qed
qed

lemma batch_stamped:
  "batch (checkPage E siteUrl) pages s = (Ok x, t) \<Longrightarrow> stamped E k0 s u \<Longrightarrow> stamped E k0 t u"
proof (induction pages arbitrary: s)
  case Nil
  then show ?case by simp
next
  case (Cons url rest)
  from Cons.prems(1) have "andThen (checkPage E siteUrl url s)
      (\<lambda>_ s'. batch (checkPage E siteUrl) rest s') = (Ok x, t)"
    by simp
  then show ?case
  proof (cases rule: andThen_cases)
    case (continue y m)
    from checkPage_stamped[OF continue(1) Cons.prems(2)] have "stamped E k0 m u" .
    then show ?thesis by (rule Cons.IH[OF continue(2)])
  next
    case (abort r0)
    then show ?thesis by simp
  qed
qed

lemma batch_stamps:
  "batch (checkPage E siteUrl) pages s = (Ok x, t) \<Longrightarrow> u \<in> set pages \<Longrightarrow>
   due E k0 k1 (statusPerUrl s) u \<Longrightarrow> k0 \<le> clock s \<Longrightarrow> clock t \<le> k1 \<Longrightarrow> stamped E k0 t u"
proof (induction pages arbitrary: s)
  case Nil
  then show ?case by simp
next
  case (Cons url rest)
  from Cons.prems(1) have "andThen (checkPage E siteUrl url s)
      (\<lambda>_ s'. batch (checkPage E siteUrl) rest s') = (Ok x, t)"
    by simp
  then show ?case
  proof (cases rule: andThen_cases)
    case (abort r0)
    then show ?thesis by simp
  next
    case (continue y m)
    note f = checkPage_frame[OF continue(1)]
    from f have sm: "clock s \<le> clock m" by blast
    from batch_clock[OF continue(2)] have mt: "clock m \<le> clock t" .
    from sm mt Cons.prems(5) have sk: "clock s \<le> k1" by simp
    show ?thesis
    proof (cases "u = url")
      case True
      from Cons.prems(3) True have "due E k0 k1 (statusPerUrl s) url" by simp
      from checkPage_stamps[OF continue(1) this Cons.prems(4) sk] True
      have "stamped E k0 m u" by simp
      with continue(2) show ?thesis by (rule batch_stamped)
    next
      case False
      with Cons.prems(2) have mem: "u \<in> set rest" by simp
      from f False have "statusPerUrl m u = statusPerUrl s u" by simp
      then have d: "due E k0 k1 (statusPerUrl m) u"
        using Cons.prems(3) by (rule due_same[of "statusPerUrl m" u "statusPerUrl s"])
      from sm Cons.prems(4) have "k0 \<le> clock m" by simp
      from Cons.IH[OF continue(2) mem d this Cons.prems(5)] show ?thesis .
    qed
  qed
qed

lemma checkPage_record:
  assumes "checkPage E siteUrl url s = (Ok x, t)" and "getProperty (statusPerUrl s) url \<noteq> Inherited"
  shows "\<exists>res. statusPerUrl t url = Some res"
  using assms(1)
proof (cases rule: checkPage_cases)
  case (hit res)
  then show ?thesis by simp
next
  case member
  with assms(2) show ?thesis by simp
next
  case miss
  from miss(2) obtain st k where
    "statusPerUrl t = (statusPerUrl s)(url \<mapsto> \<lparr>status = st, lastCheckedAt = Some (dateNow E k)\<rparr>)"
    by (rule fetchLive_Ok)
  then show ?thesis by simp
next
  case (stale res)
  from stale(3) obtain st k where
    "statusPerUrl t = (statusPerUrl (tick s))(url \<mapsto> \<lparr>status = st, lastCheckedAt = Some (dateNow E k)\<rparr>)"
    by (rule fetchLive_Ok)
  then show ?thesis by simp
qed

lemma batch_records:
  "batch (checkPage E siteUrl) pages s = (Ok x, t) \<Longrightarrow> u \<in> set pages \<Longrightarrow>
   getProperty (statusPerUrl s) u \<noteq> Inherited \<Longrightarrow> \<exists>res. statusPerUrl t u = Some res"
proof (induction pages arbitrary: s)
  case Nil
  then show ?case by simp
next
  case (Cons url rest)
  from Cons.prems(1) have "andThen (checkPage E siteUrl url s)
      (\<lambda>_ s'. batch (checkPage E siteUrl) rest s') = (Ok x, t)"
    by simp
  then show ?case
  proof (cases rule: andThen_cases)
    case (abort r0)
    then show ?thesis by simp
  next
    case (continue y m)
    show ?thesis
    proof (cases "u = url")
      case True
      from Cons.prems(3) True have "getProperty (statusPerUrl s) url \<noteq> Inherited" by simp
      from checkPage_record[OF continue(1) this] True obtain res where m: "statusPerUrl m u = Some res"
        by auto
      from batch_effect[OF continue(2)] have "keptOrStamped E m t u" by blast
      with m show ?thesis unfolding keptOrStamped_def by auto
    next
      case False
      with Cons.prems(2) have mem: "u \<in> set rest" by simp
      from checkPage_frame[OF continue(1)] False have "statusPerUrl m u = statusPerUrl s u" by simp
      from getProperty_same[of "statusPerUrl m" u "statusPerUrl s", OF this] Cons.prems(3)
      have "getProperty (statusPerUrl m) u \<noteq> Inherited"
        by simp
      from Cons.IH[OF continue(2) mem this] show ?thesis .
    qed
  qed
qed

section \<open>The persisted cache\<close>

lemma statusPhase_cases:
  assumes "statusPhase E cachePath siteUrl pages s = (Ok x, t)"
  obtains m where "cacheFiles s cachePath \<noteq> Some Corrupt"
    "batch (checkPage E siteUrl) pages
       (s\<lparr>statusPerUrl := cachedDoc s cachePath, pagesPerStatus := (\<lambda>_. [])\<rparr>) = (Ok (), m)"
    "t = writeCache cachePath m"
proof -
  from assms have "andThen (readCache cachePath s) (\<lambda>_ s1.
       andThen (batch (checkPage E siteUrl) pages s1) (\<lambda>_ s2.
         (Ok (), writeCache cachePath s2))) = (Ok x, t)"
    by (simp add: statusPhase_def)
  then show ?thesis
  proof (cases rule: andThen_cases)
    case (abort r0)
    then show ?thesis by simp
  next
    case (continue y s0)
    from continue(1) have nc: "cacheFiles s cachePath \<noteq> Some Corrupt"
      and s0: "s0 = s\<lparr>statusPerUrl := cachedDoc s cachePath, pagesPerStatus := (\<lambda>_. [])\<rparr>"
      by (auto simp: readCache_def cachedDoc_def split: option.splits cache_doc.splits)
    from continue(2) show ?thesis
    proof (cases rule: andThen_cases)
      case (abort r0)
      then show ?thesis by simp
    next
      case (continue z m)
      then have "batch (checkPage E siteUrl) pages
          (s\<lparr>statusPerUrl := cachedDoc s cachePath, pagesPerStatus := (\<lambda>_. [])\<rparr>) = (Ok (), m)"
        "t = writeCache cachePath m"
        by (simp_all add: s0)
      with nc show ?thesis by (rule that)
    qed
  qed
qed

lemma requestLoop_grows4:
  assumes "requestLoop E rpmRetry url rc s = (r, s')"
  shows "grows (\<lambda>e. isProbeCall e \<or> isRequestCall e \<or> isRotated e \<or> isReported e) s s'"
  by (rule grows_mono[OF requestLoop_grows[OF assms]]) blast

lemma processUrl_frame:
  assumes "processUrl E rpmRetry url s = (r, t)"
  shows "statusPerUrl t = statusPerUrl s \<and> pagesPerStatus t = pagesPerStatus s
    \<and> cacheFiles t = cacheFiles s \<and> clock s \<le> clock t
    \<and> grows (\<lambda>e. isProbeCall e \<or> isRequestCall e \<or> isRotated e \<or> isReported e) s t"
  using assms
proof (cases rule: processUrl_cases)
  case processed
  from requestLoop_frame[OF processed(1)] requestLoop_grows4[OF processed(1)]
  show ?thesis by simp
next
  case (unprocessed s1)
  have "grows (\<lambda>e. isProbeCall e \<or> isRequestCall e \<or> isRotated e \<or> isReported e) s1 t"
    using unprocessed(3) by simp
  with requestLoop_grows4[OF unprocessed(1)]
  have "grows (\<lambda>e. isProbeCall e \<or> isRequestCall e \<or> isRotated e \<or> isReported e) s t"
    by (rule grows_trans)
  with requestLoop_frame[OF unprocessed(1)] unprocessed(3) show ?thesis by simp
next
  case (aborted r0)
  from requestLoop_frame[OF aborted(1)] requestLoop_grows4[OF aborted(1)]
  show ?thesis by simp
qed

lemma requestPhase_frame:
  "requestPhase E rpmRetry us s = (r, t) \<Longrightarrow>
   statusPerUrl t = statusPerUrl s \<and> pagesPerStatus t = pagesPerStatus s
   \<and> cacheFiles t = cacheFiles s \<and> clock s \<le> clock t
   \<and> grows (\<lambda>e. isProbeCall e \<or> isRequestCall e \<or> isRotated e \<or> isReported e) s t"
proof (induction us arbitrary: s)
  case Nil
  then show ?case by simp
next
  case (Cons url rest)
  from Cons.prems have "andThen (processUrl E rpmRetry url s)
      (\<lambda>_ s'. requestPhase E rpmRetry rest s') = (r, t)"
    by simp
  then show ?case
  proof (cases rule: andThen_cases)
    case (continue x m)
    note a = processUrl_frame[OF continue(1)] and b = Cons.IH[OF continue(2)]
    from a b have "grows (\<lambda>e. isProbeCall e \<or> isRequestCall e \<or> isRotated e \<or> isReported e) s t"
      by (blast intro: grows_trans)
    with a b show ?thesis by simp
  next
    case (abort r0)
    from processUrl_frame[OF abort(1)] show ?thesis by simp
  qed
qed

lemma writeCache_stamped:
  assumes "stamped E k0 m u"
  shows "stamped E k0 (writeCache cachePath m) u"
proof -
  have "surfaced (writeCache cachePath m) u st = surfaced m u st" for st
    by (simp add: surfaced_def)
  with assms show ?thesis unfolding stamped_iff by simp
qed

text \<open>
  C4, as stated, fails: a processed URL whose cached record is served from the cache keeps
  the timestamp of that record. The run below starts at time 2000000000 with a record of
  the first page stamped 5; it completes, and the persisted record of that page is still
  stamped 5, while the page fetched live is stamped 2000000000.
\<close>

theorem cache_after_run_counterexample:
  "fst (index (keyFileEnv [accountA]) noVars (Some ''a.test'') noOptions cachedWorld) = Ok ()
   \<and> dateNow (keyFileEnv [accountA]) (clock cachedWorld) = 2000000000
   \<and> map_option lastCheckedAt
         (cachedDoc (snd (index (keyFileEnv [accountA]) noVars (Some ''a.test'') noOptions cachedWorld))
            ''.cache/a.test.json'' ''https://a.test/1'') = Some (Some 5)
   \<and> map_option lastCheckedAt
         (cachedDoc (snd (index (keyFileEnv [accountA]) noVars (Some ''a.test'') noOptions cachedWorld))
            ''.cache/a.test.json'' ''https://a.test/2'') = Some (Some 2000000000)"
  by code_simp

text \<open>
  C4, amended. When the status-check phase completes, the store is written to the cache
  file once, as the last thing the phase does, and the request phase neither writes the
  file nor changes the store. A URL that was not processed keeps what the document had for
  it. A processed URL has a record in the written store (one: the store is a map), except
  when the document has none and the URL is the name of a member of \<^verbatim>\<open>Object.prototype\<close>:
  then the lookup finds the inherited member and no record is written.

  What the record of a processed URL is depends on what the document held for it. If that
  is served throughout the phase (a record that is not indexable or not older than the
  freshness window, or an inherited member), the store keeps it as it was, with its earlier
  timestamp, and no status call is made for the URL. If it is due throughout the phase
  (no record, or an indexable record older than the window), the record was written by a
  live fetch of this phase: it holds the answer of the latest status call made for the
  URL and a time read during the phase, which, the wall clock never going back, is at
  least the time at which the phase started. In every case the record is the one of the
  document or was stamped during the phase.

  Every live fetch that returns overwrites the record of its URL with the status it
  obtained (the answer of its latest status call, \<^verbatim>\<open>Error\<close> when there is no session) and
  the time read at that moment, the last reading of the fetch.
\<close>

theorem cache_after_run:
  "(statusPhase E cachePath siteUrl pages s = (Ok x, t) \<longrightarrow>
      cacheFiles t = (cacheFiles s)(cachePath \<mapsto> Doc (statusPerUrl t))
      \<and> last (trace t) = CacheWritten cachePath
      \<and> occurrences isCacheWritten (trace t) = occurrences isCacheWritten (trace s) + 1
      \<and> (\<forall>u. u \<notin> set pages \<longrightarrow> statusPerUrl t u = cachedDoc s cachePath u)
      \<and> (\<forall>u\<in>set pages. getProperty (cachedDoc s cachePath) u = Inherited \<longrightarrow>
            statusPerUrl t u = None)
      \<and> (\<forall>u\<in>set pages. getProperty (cachedDoc s cachePath) u \<noteq> Inherited \<longrightarrow>
            (\<exists>res. statusPerUrl t u = Some res))
      \<and> (\<forall>u. served E (clock s) (clock t) (cachedDoc s cachePath) u \<longrightarrow>
            statusPerUrl t u = cachedDoc s cachePath u
            \<and> occurrences (isStatusCallFor u) (trace t) = occurrences (isStatusCallFor u) (trace s))
      \<and> (\<forall>u\<in>set pages. due E (clock s) (clock t) (cachedDoc s cachePath) u \<longrightarrow>
            stamped E (clock s) t u
            \<and> ((\<forall>i j. i \<le> j \<longrightarrow> dateNow E i \<le> dateNow E j) \<longrightarrow>
                  (\<exists>res ts. statusPerUrl t u = Some res \<and> lastCheckedAt res = Some ts
                      \<and> dateNow E (clock s) \<le> ts)))
      \<and> (\<forall>u. statusPerUrl t u = cachedDoc s cachePath u
             \<or> (\<exists>res k. statusPerUrl t u = Some res \<and> lastCheckedAt res = Some (dateNow E k)
                   \<and> clock s \<le> k)))
   \<and> (requestPhase E rpmRetry us t = (r, t') \<longrightarrow>
        cacheFiles t' = cacheFiles t \<and> statusPerUrl t' = statusPerUrl t
        \<and> occurrences isCacheWritten (trace t') = occurrences isCacheWritten (trace t))
   \<and> (fetchLive E siteUrl url s = (Ok y, t'') \<longrightarrow>
        (\<exists>st k. clock s \<le> k \<and> clock t'' = Suc k
           \<and> statusPerUrl t'' = (statusPerUrl s)(url \<mapsto> \<lparr>status = st, lastCheckedAt = Some (dateNow E k)\<rparr>)
           \<and> surfaced t'' url st))"
proof (intro conjI impI)
  assume run: "statusPhase E cachePath siteUrl pages s = (Ok x, t)"
  let ?c = "cachedDoc s cachePath"
  let ?s0 = "s\<lparr>statusPerUrl := ?c, pagesPerStatus := (\<lambda>_. [])\<rparr>"
  from run obtain m where b: "batch (checkPage E siteUrl) pages ?s0 = (Ok (), m)"
    and t: "t = writeCache cachePath m"
    by (rule statusPhase_cases)
  have c0: "statusPerUrl ?s0 = ?c" and k0: "clock s \<le> clock ?s0" and k1: "clock m \<le> clock t"
    by (simp_all add: t)
  from batch_effect[OF b]
  have g: "grows (\<lambda>e. isStatusCall e \<or> isRotated e) ?s0 m" and f: "cacheFiles m = cacheFiles s"
    and out: "\<And>u. u \<notin> set pages \<Longrightarrow> statusPerUrl m u = ?c u"
    and ks: "\<And>u. keptOrStamped E ?s0 m u"
    by simp_all
  show "cacheFiles t = (cacheFiles s)(cachePath \<mapsto> Doc (statusPerUrl t))"
    by (simp add: t f)
  show "last (trace t) = CacheWritten cachePath"
    by (simp add: t)
  have "occurrences isCacheWritten (trace m) = occurrences isCacheWritten (trace ?s0)"
    by (rule grows_occurrences[OF g]) (auto elim: isStatusCall.elims isRotated.elims)
  then show "occurrences isCacheWritten (trace t) = occurrences isCacheWritten (trace s) + 1"
    by (simp add: t)
  show "\<forall>u. u \<notin> set pages \<longrightarrow> statusPerUrl t u = ?c u"
    using out by (simp add: t)
  have sv: "statusPerUrl t u = ?c u
      \<and> occurrences (isStatusCallFor u) (trace t) = occurrences (isStatusCallFor u) (trace s)"
    if "served E (clock s) (clock t) ?c u" for u
  proof -
    from that have "served E (clock s) (clock t) (statusPerUrl ?s0) u" by simp
    from batch_served[OF b this k0 k1] show ?thesis by (simp add: t)
  qed
  then show "\<forall>u. served E (clock s) (clock t) ?c u \<longrightarrow>
            statusPerUrl t u = ?c u
            \<and> occurrences (isStatusCallFor u) (trace t) = occurrences (isStatusCallFor u) (trace s)"
    by blast
  show "\<forall>u\<in>set pages. getProperty ?c u = Inherited \<longrightarrow> statusPerUrl t u = None"
  proof (intro ballI impI)
    fix u assume i: "getProperty ?c u = Inherited"
    then have "served E (clock s) (clock t) ?c u" by (simp add: served_def)
    from sv[OF this] have "statusPerUrl t u = ?c u" by simp
    moreover from i have "?c u = None" by (auto simp: getProperty_def split: option.splits)
    ultimately show "statusPerUrl t u = None" by simp
  qed
  show "\<forall>u\<in>set pages. getProperty ?c u \<noteq> Inherited \<longrightarrow> (\<exists>res. statusPerUrl t u = Some res)"
  proof (intro ballI impI)
    fix u assume "u \<in> set pages" and "getProperty ?c u \<noteq> Inherited"
    then have "u \<in> set pages" "getProperty (statusPerUrl ?s0) u \<noteq> Inherited" by simp_all
    from batch_records[OF b this] show "\<exists>res. statusPerUrl t u = Some res" by (simp add: t)
  qed
  show "\<forall>u\<in>set pages. due E (clock s) (clock t) ?c u \<longrightarrow>
            stamped E (clock s) t u
            \<and> ((\<forall>i j. i \<le> j \<longrightarrow> dateNow E i \<le> dateNow E j) \<longrightarrow>
                  (\<exists>res ts. statusPerUrl t u = Some res \<and> lastCheckedAt res = Some ts
                      \<and> dateNow E (clock s) \<le> ts))"
  proof (intro ballI impI)
    fix u assume mem: "u \<in> set pages" and d: "due E (clock s) (clock t) ?c u"
    from d have "due E (clock s) (clock t) (statusPerUrl ?s0) u" by simp
    from batch_stamps[OF b mem this k0 k1] have "stamped E (clock s) m u" .
    then have st: "stamped E (clock s) t u" unfolding t by (rule writeCache_stamped)
    have "\<exists>res ts. statusPerUrl t u = Some res \<and> lastCheckedAt res = Some ts
                      \<and> dateNow E (clock s) \<le> ts"
      if mono: "\<forall>i j. i \<le> j \<longrightarrow> dateNow E i \<le> dateNow E j"
    proof -
      from st obtain res k where "statusPerUrl t u = Some res" "clock s \<le> k"
        "lastCheckedAt res = Some (dateNow E k)"
        unfolding stamped_iff by blast
      moreover from this mono have "dateNow E (clock s) \<le> dateNow E k" by blast
      ultimately show ?thesis by blast
    qed
    with st show "stamped E (clock s) t u
            \<and> ((\<forall>i j. i \<le> j \<longrightarrow> dateNow E i \<le> dateNow E j) \<longrightarrow>
                  (\<exists>res ts. statusPerUrl t u = Some res \<and> lastCheckedAt res = Some ts
                      \<and> dateNow E (clock s) \<le> ts))"
      by blast
  qed
  show "\<forall>u. statusPerUrl t u = ?c u
             \<or> (\<exists>res k. statusPerUrl t u = Some res \<and> lastCheckedAt res = Some (dateNow E k)
                   \<and> clock s \<le> k)"
  proof
    fix u
    from ks[of u] show "statusPerUrl t u = ?c u
             \<or> (\<exists>res k. statusPerUrl t u = Some res \<and> lastCheckedAt res = Some (dateNow E k)
                   \<and> clock s \<le> k)"
      unfolding keptOrStamped_def by (auto simp: t)
  qed
next
  assume run: "requestPhase E rpmRetry us t = (r, t')"
  note f = requestPhase_frame[OF run]
  from f show "cacheFiles t' = cacheFiles t" and "statusPerUrl t' = statusPerUrl t"
    by simp_all
  from f have g: "grows (\<lambda>e. isProbeCall e \<or> isRequestCall e \<or> isRotated e \<or> isReported e) t t'"
    by simp
  show "occurrences isCacheWritten (trace t') = occurrences isCacheWritten (trace t)"
    by (rule grows_occurrences[OF g])
       (auto elim: isProbeCall.elims isRequestCall.elims isRotated.elims isReported.elims)
next
  assume run: "fetchLive E siteUrl url s = (Ok y, t'')"
  then obtain st k where "clock s \<le> k" "clock t'' = Suc k"
    "statusPerUrl t'' = (statusPerUrl s)(url \<mapsto> \<lparr>status = st, lastCheckedAt = Some (dateNow E k)\<rparr>)"
    "surfaced t'' url st"
    by (rule fetchLive_Ok)
  then show "\<exists>st k. clock s \<le> k \<and> clock t'' = Suc k
           \<and> statusPerUrl t'' = (statusPerUrl s)(url \<mapsto> \<lparr>status = st, lastCheckedAt = Some (dateNow E k)\<rparr>)
           \<and> surfaced t'' url st"
    by blast
qed

text \<open>
  Four pages on a clock that advances: the first has a record that is not indexable and
  keeps it, stamped 5, without a status call; the second has a stale indexable record,
  which is replaced by the answer of the status call and the time of the fetch; the third
  has no record and gets one; the last is named \<^verbatim>\<open>constructor\<close> and gets none. The phase
  ends at the clock value 7 and writes the cache once, at the end.
\<close>

theorem cache_after_run_witness:
  "fst (statusPhase tickingEnv ''.cache/a.test.json'' ''a.test'' mixedPages mixedCacheState) = Ok ()
   \<and> last (trace (snd (statusPhase tickingEnv ''.cache/a.test.json'' ''a.test'' mixedPages
          mixedCacheState))) = CacheWritten ''.cache/a.test.json''
   \<and> occurrences isCacheWritten (trace (snd (statusPhase tickingEnv ''.cache/a.test.json'' ''a.test''
          mixedPages mixedCacheState))) = 1
   \<and> served tickingEnv 0 7 (cachedDoc mixedCacheState ''.cache/a.test.json'') ''https://a.test/1''
   \<and> statusPerUrl (snd (statusPhase tickingEnv ''.cache/a.test.json'' ''a.test'' mixedPages
          mixedCacheState)) ''https://a.test/1''
       = Some \<lparr>status = SubmittedAndIndexed, lastCheckedAt = Some 5\<rparr>
   \<and> occurrences (isStatusCallFor ''https://a.test/1'')
         (trace (snd (statusPhase tickingEnv ''.cache/a.test.json'' ''a.test'' mixedPages
            mixedCacheState))) = 0
   \<and> due tickingEnv 0 7 (cachedDoc mixedCacheState ''.cache/a.test.json'') ''https://a.test/2''
   \<and> stamped tickingEnv 0 (snd (statusPhase tickingEnv ''.cache/a.test.json'' ''a.test'' mixedPages
          mixedCacheState)) ''https://a.test/2''
   \<and> statusPerUrl (snd (statusPhase tickingEnv ''.cache/a.test.json'' ''a.test'' mixedPages
          mixedCacheState)) ''https://a.test/2''
       = Some \<lparr>status = SubmittedAndIndexed, lastCheckedAt = Some 2000000003\<rparr>
   \<and> due tickingEnv 0 7 (cachedDoc mixedCacheState ''.cache/a.test.json'') ''https://a.test/3''
   \<and> stamped tickingEnv 0 (snd (statusPhase tickingEnv ''.cache/a.test.json'' ''a.test'' mixedPages
          mixedCacheState)) ''https://a.test/3''
   \<and> getProperty (cachedDoc mixedCacheState ''.cache/a.test.json'') ''constructor'' = Inherited
   \<and> statusPerUrl (snd (statusPhase tickingEnv ''.cache/a.test.json'' ''a.test'' mixedPages
          mixedCacheState)) ''constructor'' = None"
proof -
  let ?path = "''.cache/a.test.json''"
  let ?T = "statusPhase tickingEnv ?path ''a.test'' mixedPages mixedCacheState"
  let ?c = "cachedDoc mixedCacheState ?path"
  have ev: "fst ?T = Ok ()" "clock mixedCacheState = 0" "clock (snd ?T) = 7"
    "trace mixedCacheState = []"
    "?c ''https://a.test/1'' = Some \<lparr>status = SubmittedAndIndexed, lastCheckedAt = Some 5\<rparr>"
    "statusPerUrl (snd ?T) ''https://a.test/2''
       = Some \<lparr>status = SubmittedAndIndexed, lastCheckedAt = Some 2000000003\<rparr>"
    by code_simp+
  have hyp: "served tickingEnv 0 7 ?c ''https://a.test/1''"
    "due tickingEnv 0 7 ?c ''https://a.test/2''" "due tickingEnv 0 7 ?c ''https://a.test/3''"
    "getProperty ?c ''constructor'' = Inherited"
    by code_simp+
  have mem: "''https://a.test/2'' \<in> set mixedPages" "''https://a.test/3'' \<in> set mixedPages"
    "''constructor'' \<in> set mixedPages"
    by (simp_all add: mixedPages_def)
  from ev(1) have run: "?T = (Ok (), snd ?T)"
    by (simp add: prod_eq_iff)
  note c = cache_after_run[where E = tickingEnv and cachePath = ?path and siteUrl = "''a.test''"
      and pages = mixedPages and s = mixedCacheState and x = "()" and t = "snd ?T",
      THEN conjunct1, THEN mp, OF run, unfolded ev(2,3)]
  note written = c[THEN conjunct2, THEN conjunct1] c[THEN conjunct2, THEN conjunct2, THEN conjunct1]
  note rest = c[THEN conjunct2, THEN conjunct2, THEN conjunct2, THEN conjunct2]
  note member = rest[THEN conjunct1, THEN bspec, OF mem(3), THEN mp, OF hyp(4)]
  note kept = rest[THEN conjunct2, THEN conjunct2, THEN conjunct1, THEN spec, THEN mp, OF hyp(1)]
  note fetched = rest[THEN conjunct2, THEN conjunct2, THEN conjunct2, THEN conjunct1]
  note two = fetched[THEN bspec, OF mem(1), THEN mp, OF hyp(2), THEN conjunct1]
  note three = fetched[THEN bspec, OF mem(2), THEN mp, OF hyp(3), THEN conjunct1]
  from written ev(4) have w: "last (trace (snd ?T)) = CacheWritten ?path"
    "occurrences isCacheWritten (trace (snd ?T)) = 1"
    by simp_all
  from kept ev(4,5) have k: "statusPerUrl (snd ?T) ''https://a.test/1''
       = Some \<lparr>status = SubmittedAndIndexed, lastCheckedAt = Some 5\<rparr>"
    "occurrences (isStatusCallFor ''https://a.test/1'') (trace (snd ?T)) = 0"
    by simp_all
  from ev(1) w hyp k two ev(6) three member show ?thesis
    by (intro conjI)
qed

section \<open>Two runs in immediate succession\<close>

lemma stamped_fresh:
  assumes "sameWindow E k0 k1" and "k0 \<le> k" and "k \<le> k1"
    and "lastCheckedAt res = Some (dateNow E k)"
  shows "fresh E k0 k1 res"
  unfolding fresh_iff
proof (intro allI impI)
  fix k' assume "k0 \<le> k' \<and> k' \<le> k1"
  with assms(1,2,3) have "dateNow E k' - CACHE_TIMEOUT \<le> dateNow E k"
    unfolding sameWindow_iff by blast
  with assms(4) show "\<not> shouldRecheck (dateNow E k') (status res) (lastCheckedAt res)"
    by (simp add: shouldRecheck_def dateLess_def)
qed

text \<open>One page of the first run: afterwards it is served, and it was filed under its key.\<close>

lemma checkPage_first_run:
  assumes run: "checkPage E siteUrl url s = (Ok x, t)"
    and k: "k0 \<le> clock s" "clock t \<le> k1" and w: "sameWindow E k0 k1"
    and st: "served E k0 k1 (statusPerUrl s) url \<or> due E k0 k1 (statusPerUrl s) url"
  obtains key where "served E k0 k1 (statusPerUrl t) url"
    "filedUnder (statusPerUrl t) url = Some key"
    "pagesPerStatus t = (pagesPerStatus s)(key := pagesPerStatus s key @ [url])"
proof -
  note filed = that
  from checkPage_frame[OF run] k(2) have sk: "clock s \<le> k1" by simp
  have live: thesis if fl: "fetchLive E siteUrl url s0 = (Ok x, t)"
    and s0: "statusPerUrl s0 = statusPerUrl s" "pagesPerStatus s0 = pagesPerStatus s"
      "clock s \<le> clock s0" for s0
  proof -
    from fl obtain st0 k' where a: "clock s0 \<le> k'" "clock t = Suc k'"
      and c: "statusPerUrl t = (statusPerUrl s0)(url \<mapsto> \<lparr>status = st0, lastCheckedAt = Some (dateNow E k')\<rparr>)"
      and p: "pagesPerStatus t = (pagesPerStatus s0)(Some st0 := pagesPerStatus s0 (Some st0) @ [url])"
      by (rule fetchLive_Ok)
    from a s0(3) k have "k0 \<le> k'" "k' \<le> k1" by simp_all
    from stamped_fresh[OF w this, of "\<lparr>status = st0, lastCheckedAt = Some (dateNow E k')\<rparr>"]
    have "fresh E k0 k1 \<lparr>status = st0, lastCheckedAt = Some (dateNow E k')\<rparr>" by simp
    with c have "served E k0 k1 (statusPerUrl t) url" by (simp add: served_def)
    moreover from c have "filedUnder (statusPerUrl t) url = Some (Some st0)"
      by (simp add: filedUnder_def)
    moreover from p s0(2)
    have "pagesPerStatus t = (pagesPerStatus s)(Some st0 := pagesPerStatus s (Some st0) @ [url])"
      by simp
    ultimately show thesis by (rule filed)
  qed
  from run show thesis
  proof (cases rule: checkPage_cases)
    case (hit res)
    from st have "fresh E k0 k1 res"
    proof
      assume "served E k0 k1 (statusPerUrl s) url"
      with hit(1) show ?thesis by (simp add: served_def)
    next
      assume "due E k0 k1 (statusPerUrl s) url"
      with hit(1) have "stale E k0 k1 res" by (simp add: due_def)
      with k(1) sk have "shouldRecheck (dateNow E (clock s)) (status res) (lastCheckedAt res)"
        by (simp add: stale_iff)
      with hit(2) show ?thesis by simp
    qed
    with hit have "served E k0 k1 (statusPerUrl t) url" by (simp add: served_def)
    moreover from hit have "filedUnder (statusPerUrl t) url = Some (Some (status res))"
      by (simp add: filedUnder_def)
    moreover from hit have "pagesPerStatus t =
        (pagesPerStatus s)(Some (status res) := pagesPerStatus s (Some (status res)) @ [url])"
      by simp
    ultimately show ?thesis by (rule that)
  next
    case member
    then have "served E k0 k1 (statusPerUrl t) url" by (simp add: served_def)
    moreover from member have "filedUnder (statusPerUrl t) url = Some None"
      by (simp add: filedUnder_def)
    moreover from member have "pagesPerStatus t = (pagesPerStatus s)(None := pagesPerStatus s None @ [url])"
      by simp
    ultimately show ?thesis by (rule that)
  next
    case miss
    show ?thesis by (rule live[OF miss(2)]) simp_all
  next
    case (stale res)
    show ?thesis by (rule live[OF stale(3)]) simp_all
  qed
qed

text \<open>
  The first run: every processed page ends served, and each page is filed under the key of
  what the store holds for it at the end.
\<close>

lemma batch_first_run:
  "batch (checkPage E siteUrl) pages s = (Ok x, t) \<Longrightarrow> k0 \<le> clock s \<Longrightarrow> clock t \<le> k1 \<Longrightarrow>
   sameWindow E k0 k1 \<Longrightarrow> settled E k0 k1 (statusPerUrl s) pages \<Longrightarrow>
   (\<forall>u\<in>set pages. served E k0 k1 (statusPerUrl t) u)
   \<and> (\<forall>key. pagesPerStatus t key =
          pagesPerStatus s key @ filter (\<lambda>u. filedUnder (statusPerUrl t) u = Some key) pages)"
proof (induction pages arbitrary: s)
  case Nil
  then show ?case by simp
next
  case (Cons url rest)
  from Cons.prems(1) have "andThen (checkPage E siteUrl url s)
      (\<lambda>_ s'. batch (checkPage E siteUrl) rest s') = (Ok x, t)"
    by simp
  then show ?case
  proof (cases rule: andThen_cases)
    case (abort r0)
    then show ?thesis by simp
  next
    case (continue y m)
    note f = checkPage_frame[OF continue(1)]
    from f have sm: "clock s \<le> clock m" by blast
    from batch_clock[OF continue(2)] have mt: "clock m \<le> clock t" .
    from sm Cons.prems(2) have k0m: "k0 \<le> clock m" by simp
    from mt Cons.prems(3) have mk1: "clock m \<le> k1" by simp
    from Cons.prems(5) have "served E k0 k1 (statusPerUrl s) url \<or> due E k0 k1 (statusPerUrl s) url"
      by (simp add: settled_def)
    with continue(1) Cons.prems(2) mk1 Cons.prems(4) obtain key where
      sv: "served E k0 k1 (statusPerUrl m) url"
      and fu: "filedUnder (statusPerUrl m) url = Some key"
      and pp: "pagesPerStatus m = (pagesPerStatus s)(key := pagesPerStatus s key @ [url])"
      by (rule checkPage_first_run)
    have sm': "settled E k0 k1 (statusPerUrl m) rest"
      unfolding settled_def
    proof
      fix u assume u: "u \<in> set rest"
      show "served E k0 k1 (statusPerUrl m) u \<or> due E k0 k1 (statusPerUrl m) u"
      proof (cases "u = url")
        case True
        with sv show ?thesis by simp
      next
        case False
        with f have eq: "statusPerUrl m u = statusPerUrl s u" by simp
        from Cons.prems(5) u
        have "served E k0 k1 (statusPerUrl s) u \<or> due E k0 k1 (statusPerUrl s) u"
          by (simp add: settled_def)
        then show ?thesis
          using served_same[of "statusPerUrl m" u "statusPerUrl s", OF eq]
            due_same[of "statusPerUrl m" u "statusPerUrl s", OF eq]
          by blast
      qed
    qed
    from Cons.IH[OF continue(2) k0m Cons.prems(3,4) sm']
    have i1: "\<And>u. u \<in> set rest \<Longrightarrow> served E k0 k1 (statusPerUrl t) u"
      and i2: "\<And>key'. pagesPerStatus t key' =
          pagesPerStatus m key' @ filter (\<lambda>u. filedUnder (statusPerUrl t) u = Some key') rest"
      by blast+
    from batch_served[OF continue(2) sv k0m Cons.prems(3)]
    have same: "statusPerUrl t url = statusPerUrl m url" by simp
    have svt: "served E k0 k1 (statusPerUrl t) url"
      by (rule served_same[of "statusPerUrl t" url "statusPerUrl m", OF same sv])
    have fut: "filedUnder (statusPerUrl t) url = Some key"
      using filedUnder_same[of "statusPerUrl t" url "statusPerUrl m", OF same] fu by simp
    have c1: "served E k0 k1 (statusPerUrl t) u" if "u \<in> set (url # rest)" for u
    proof (cases "u = url")
      case True
      with svt show ?thesis by simp
    next
      case False
      with that have "u \<in> set rest" by simp
      then show ?thesis by (rule i1)
    qed
    have c2: "pagesPerStatus t key' =
          pagesPerStatus s key' @ filter (\<lambda>u. filedUnder (statusPerUrl t) u = Some key') (url # rest)"
      for key'
      unfolding i2[of key'] pp using fut by simp
    from c1 c2 show ?thesis by blast
  qed
qed

text \<open>The second run: every page is served from the cache.\<close>

lemma batch_second_run:
  "batch (checkPage E siteUrl) pages s = (r, t) \<Longrightarrow> k0 \<le> clock s \<Longrightarrow> clock t \<le> k1 \<Longrightarrow>
   \<forall>u\<in>set pages. served E k0 k1 (statusPerUrl s) u \<Longrightarrow>
   r = Ok () \<and> statusPerUrl t = statusPerUrl s \<and> trace t = trace s \<and> cacheFiles t = cacheFiles s
   \<and> (\<forall>key. pagesPerStatus t key =
          pagesPerStatus s key @ filter (\<lambda>u. filedUnder (statusPerUrl s) u = Some key) pages)"
proof (induction pages arbitrary: s)
  case Nil
  then show ?case by simp
next
  case (Cons url rest)
  from batch_clock[OF Cons.prems(1)] Cons.prems(3) have sk: "clock s \<le> k1" by simp
  from Cons.prems(4) have sv: "served E k0 k1 (statusPerUrl s) url" by simp
  obtain r0 m where step: "checkPage E siteUrl url s = (r0, m)"
    by (cases "checkPage E siteUrl url s")
  from step obtain key where m: "r0 = Ok ()" "m = addPage key url (tick s)"
    and fu: "filedUnder (statusPerUrl s) url = Some key"
  proof (cases rule: checkPage_cases)
    case (hit res)
    moreover from hit(1) have "filedUnder (statusPerUrl s) url = Some (Some (status res))"
      by (simp add: filedUnder_def)
    ultimately show ?thesis using that by blast
  next
    case member
    moreover from member(1) have "filedUnder (statusPerUrl s) url = Some None"
      by (simp add: filedUnder_def)
    ultimately show ?thesis using that by blast
  next
    case miss
    with sv show ?thesis by (simp add: served_def)
  next
    case (stale res)
    from sv stale(1) have "fresh E k0 k1 res" by (simp add: served_def)
    with Cons.prems(2) sk have "\<not> shouldRecheck (dateNow E (clock s)) (status res) (lastCheckedAt res)"
      by (simp add: fresh_iff)
    with stale(2) show ?thesis by simp
  qed
  from Cons.prems(1) step m have b: "batch (checkPage E siteUrl) rest m = (r, t)"
    by simp
  from m(2) Cons.prems(2) have k0m: "k0 \<le> clock m" by simp
  from m(2) Cons.prems(4) have "\<forall>u\<in>set rest. served E k0 k1 (statusPerUrl m) u" by simp
  from Cons.IH[OF b k0m Cons.prems(3) this]
  have i: "r = Ok ()" "statusPerUrl t = statusPerUrl m" "trace t = trace m" "cacheFiles t = cacheFiles m"
    and i2: "\<And>key'. pagesPerStatus t key' =
          pagesPerStatus m key' @ filter (\<lambda>u. filedUnder (statusPerUrl m) u = Some key') rest"
    by blast+
  have "pagesPerStatus t key' =
          pagesPerStatus s key' @ filter (\<lambda>u. filedUnder (statusPerUrl s) u = Some key') (url # rest)"
    for key'
    unfolding i2[of key'] using m(2) fu by simp
  with i m(2) show ?case by simp
qed

lemma resolvePages_frame:
  assumes "resolvePages E us siteUrl s = (r, t)"
  shows "trace t = trace s \<and> cacheFiles t = cacheFiles s \<and> clock s \<le> clock t"
proof (cases "(case us of None \<Rightarrow> [] | Some u \<Rightarrow> u) = []")
  case False
  with assms show ?thesis
    by (auto simp: resolvePages_def split: sum.splits)
next
  case True
  with assms have "andThen (activeToken s) (\<lambda>tok s0.
          case getSitemapPages E (clock s0) tok siteUrl of
            Inl msg \<Rightarrow> (Thrown msg, tick s0)
          | Inr (sitemaps, pagesFromSitemaps) \<Rightarrow>
              if length sitemaps = 0 then (Exited 1, tick s0)
              else (Ok pagesFromSitemaps, tick s0)) = (r, t)"
    by (simp add: resolvePages_def)
  then show ?thesis
  proof (cases rule: andThen_cases)
    case (continue tok s0)
    from continue(1) have "s0 = s" by (simp add: activeToken_def split: if_splits)
    with continue(2) show ?thesis
      by (auto split: sum.splits prod.splits if_splits)
  next
    case (abort r0)
    then show ?thesis by (simp add: activeToken_def split: if_splits)
  qed
qed

text \<open>The status-check phase of a second run that finds the cache of the first.\<close>

lemma statusPhase_again:
  assumes run1: "statusPhase E cachePath siteUrl pages s = (Ok x, t1)"
    and run2: "statusPhase E cachePath siteUrl' pages s2 = (r2, t2)"
    and w: "sameWindow E k0 k1" and st: "settled E k0 k1 (cachedDoc s cachePath) pages"
    and doc2: "cacheFiles s2 cachePath = cacheFiles t1 cachePath"
    and k: "k0 \<le> clock s" "clock t1 \<le> clock s2" "clock t2 \<le> k1"
  shows "r2 = Ok () \<and> cacheFiles t2 = cacheFiles s2 \<and> trace t2 = trace s2 @ [CacheWritten cachePath]
     \<and> statusPerUrl t2 = statusPerUrl t1 \<and> pagesPerStatus t2 = pagesPerStatus t1"
proof -
  let ?s0 = "s\<lparr>statusPerUrl := cachedDoc s cachePath, pagesPerStatus := (\<lambda>_. [])\<rparr>"
  from run1 obtain m where b: "batch (checkPage E siteUrl) pages ?s0 = (Ok (), m)"
    and t1: "t1 = writeCache cachePath m"
    by (rule statusPhase_cases)
  from doc2 t1 have doc: "cacheFiles s2 cachePath = Some (Doc (statusPerUrl m))"
    by simp
  let ?s2 = "s2\<lparr>statusPerUrl := statusPerUrl m, pagesPerStatus := (\<lambda>_. [])\<rparr>"
  from doc have rd: "readCache cachePath s2 = (Ok (), ?s2)"
    by (simp add: readCache_def)
  obtain rb tb where b2: "batch (checkPage E siteUrl') pages ?s2 = (rb, tb)"
    by (cases "batch (checkPage E siteUrl') pages ?s2")
  from run2 rd b2 have run2': "andThen (rb, tb) (\<lambda>_ s2. (Ok (), writeCache cachePath s2)) = (r2, t2)"
    by (simp add: statusPhase_def)
  have ct: "clock tb = clock t2"
    using run2' by (cases rb) auto
  from batch_clock[OF b2] have s2tb: "clock s2 \<le> clock tb" by simp
  from batch_clock[OF b] have sm: "clock s \<le> clock m" by simp
  from t1 have mt1: "clock m = clock t1" by simp
  from mt1 k(2) s2tb ct k(3) have mk1: "clock m \<le> k1" by simp
  from k(1) have k0s: "k0 \<le> clock ?s0" by simp
  from st have st0: "settled E k0 k1 (statusPerUrl ?s0) pages" by simp
  from batch_first_run[OF b k0s mk1 w st0]
  have fr: "\<forall>u\<in>set pages. served E k0 k1 (statusPerUrl m) u"
    and part1: "\<And>key. pagesPerStatus m key =
        filter (\<lambda>u. filedUnder (statusPerUrl m) u = Some key) pages"
    by simp_all
  from k(1) sm mt1 k(2) have k0s2: "k0 \<le> clock ?s2" by simp
  from ct k(3) have tbk1: "clock tb \<le> k1" by simp
  from fr have fr2: "\<forall>u\<in>set pages. served E k0 k1 (statusPerUrl ?s2) u" by simp
  from batch_second_run[OF b2 k0s2 tbk1 fr2]
  have e: "rb = Ok ()" "statusPerUrl tb = statusPerUrl m" "trace tb = trace s2"
      "cacheFiles tb = cacheFiles s2"
    and part2: "\<And>key. pagesPerStatus tb key =
        filter (\<lambda>u. filedUnder (statusPerUrl m) u = Some key) pages"
    by simp_all
  have pp: "pagesPerStatus tb = pagesPerStatus m"
  proof
    fix key show "pagesPerStatus tb key = pagesPerStatus m key"
      unfolding part2[of key] part1[of key] by simp
  qed
  from run2' e(1) have r2: "r2 = Ok ()" and t2: "t2 = writeCache cachePath tb"
    by simp_all
  have "cacheFiles t2 = cacheFiles s2"
    using e doc by (simp add: t2 fun_upd_idem)
  moreover have "trace t2 = trace s2 @ [CacheWritten cachePath]"
    using e by (simp add: t2)
  moreover have "statusPerUrl t2 = statusPerUrl t1" "pagesPerStatus t2 = pagesPerStatus t1"
    using e pp t1 by (simp_all add: t2)
  ultimately show ?thesis using r2 by blast
qed

lemma statusPhase_clock:
  assumes "statusPhase E cachePath siteUrl pages s = (Ok x, t)"
  shows "clock s \<le> clock t"
proof -
  from assms obtain m where
    b: "batch (checkPage E siteUrl) pages
       (s\<lparr>statusPerUrl := cachedDoc s cachePath, pagesPerStatus := (\<lambda>_. [])\<rparr>) = (Ok (), m)"
    and t: "t = writeCache cachePath m"
    by (rule statusPhase_cases)
  from batch_clock[OF b] t show ?thesis by simp
qed

lemma not_status_call:
  "isWarned e \<or> isProbeCall e \<or> isRequestCall e \<or> isRotated e \<or> isReported e \<Longrightarrow> \<not> isStatusCall e"
  by (cases e) simp_all


text \<open>
  C5, as stated, fails: a cached record can cross the freshness window between the two
  runs. Below, the only page has an indexable record that is exactly fourteen days old
  when the first run looks at it, so the first run serves it from the cache and makes no
  status call. The second run starts right after the first (both runs together take 12
  milliseconds, with the same input and the same answers of the remote services); when it
  looks at the record, the record is older than the window: the second run makes a status
  call and replaces the record in the cache document.
\<close>

theorem second_run_idempotent_counterexample:
  "fst (index boundaryEnv noVars (Some ''a.test'') noOptions boundaryWorld) = Ok ()
   \<and> fst (index boundaryEnv noVars (Some ''a.test'') noOptions
        (snd (index boundaryEnv noVars (Some ''a.test'') noOptions boundaryWorld))) = Ok ()
   \<and> dateNow boundaryEnv
        (clock (snd (index boundaryEnv noVars (Some ''a.test'') noOptions
           (snd (index boundaryEnv noVars (Some ''a.test'') noOptions boundaryWorld)))))
       - dateNow boundaryEnv (clock boundaryWorld) = 12
   \<and> occurrences isStatusCall
        (trace (snd (index boundaryEnv noVars (Some ''a.test'') noOptions boundaryWorld))) = 0
   \<and> occurrences isStatusCall
        (trace (snd (index boundaryEnv noVars (Some ''a.test'') noOptions
           (snd (index boundaryEnv noVars (Some ''a.test'') noOptions boundaryWorld))))) = 1
   \<and> cachedDoc (snd (index boundaryEnv noVars (Some ''a.test'') noOptions boundaryWorld))
        ''.cache/a.test.json'' ''https://a.test/1''
       = Some \<lparr>status = CrawledCurrentlyNotIndexed, lastCheckedAt = Some 790400003\<rparr>
   \<and> cachedDoc (snd (index boundaryEnv noVars (Some ''a.test'') noOptions
           (snd (index boundaryEnv noVars (Some ''a.test'') noOptions boundaryWorld))))
        ''.cache/a.test.json'' ''https://a.test/1''
       = Some \<lparr>status = CrawledCurrentlyNotIndexed, lastCheckedAt = Some 2000000010\<rparr>"
  by code_simp

text \<open>
  C5, amended. A first run completes, and a second run is started on the same input in the
  world the first one left. Both runs verify the pool and resolve the same page list (the
  remote state did not change), and they are in immediate succession: any two readings of
  the wall clock made from the start of the first run to the end of the second are within
  one freshness window of each other. Suppose moreover that no page of the list crosses the
  window meanwhile: what the cache document of the first run holds for it is served at
  every moment of the two runs or due at every moment. Then the second run, however it
  ends, leaves the cache files as they were, makes no status call, and files the pages
  under the same keys, so that the indexable pages are the same list.
\<close>

theorem second_run_idempotent:
  assumes inp: "\<not> falsy input"
    and creds: "loadCredentials E (withEnvDefaults P options) = Ok creds"
    and pool1: "buildPool E (convertToSiteUrl E (the input)) creds s = (Ok site, a1)"
    and pages1: "resolvePages E (urls (withEnvDefaults P options)) site a1 = (Ok pages, b1)"
    and run1: "index E P input options s = (Ok (), t1)"
    and pool2: "buildPool E (convertToSiteUrl E (the input)) creds t1 = (Ok site', a2)"
    and pages2: "resolvePages E (urls (withEnvDefaults P options)) site' a2 = (Ok pages, b2)"
    and w: "sameWindow E (clock s) (clock (snd (index E P input options t1)))"
    and st: "settled E (clock s) (clock (snd (index E P input options t1)))
               (cachedDoc s (cachePathOf E (convertToSiteUrl E (the input)))) pages"
  shows "cacheFiles (snd (index E P input options t1)) = cacheFiles t1
    \<and> occurrences isStatusCall (trace (snd (index E P input options t1)))
        = occurrences isStatusCall (trace t1)
    \<and> pagesPerStatus (snd (index E P input options t1)) = pagesPerStatus t1
    \<and> indexablePagesOf (pagesPerStatus (snd (index E P input options t1)))
        = indexablePagesOf (pagesPerStatus t1)"
proof -
  let ?path = "cachePathOf E (convertToSiteUrl E (the input))"
  let ?O = "withEnvDefaults P options"
  let ?rq = "\<lambda>(_::unit) s. requestPhase E (rpmRetryOf ?O) (indexablePagesOf (pagesPerStatus s)) s"
  let ?K = "clock (snd (index E P input options t1))"
  from run1 pages1 have "andThen (statusPhase E ?path site pages b1) ?rq = (Ok (), t1)"
    by (simp add: index_fromPool[OF inp creds pool1] fromPool_def)
  then obtain x c1 where sp1: "statusPhase E ?path site pages b1 = (Ok x, c1)"
    and rq1: "requestPhase E (rpmRetryOf ?O) (indexablePagesOf (pagesPerStatus c1)) c1 = (Ok (), t1)"
    by (cases rule: andThen_cases) simp_all
  note p1 = buildPool_frame[OF pool1] and r1 = resolvePages_frame[OF pages1]
  note q1 = requestPhase_frame[OF rq1]
  note p2 = buildPool_frame[OF pool2] and r2 = resolvePages_frame[OF pages2]
  from p1 r1 have sb1: "clock s \<le> clock b1" and fb1: "cacheFiles b1 = cacheFiles s"
    by simp_all
  from fb1 have "cachedDoc b1 ?path = cachedDoc s ?path" by (simp add: cachedDoc_def)
  with st have st1: "settled E (clock s) ?K (cachedDoc b1 ?path) pages" by simp
  from p2 r2 q1 have fb2: "cacheFiles b2 ?path = cacheFiles c1 ?path" and c1b2: "clock c1 \<le> clock b2"
    by simp_all
  obtain r2' t2 where sp2: "statusPhase E ?path site' pages b2 = (r2', t2)"
    by (cases "statusPhase E ?path site' pages b2")
  from pages2 sp2 have i2: "index E P input options t1 = andThen (r2', t2) ?rq"
    by (simp add: index_fromPool[OF inp creds pool2] fromPool_def)
  have t2K: "clock t2 \<le> ?K"
  proof (cases r2')
    case (Ok y)
    let ?R = "requestPhase E (rpmRetryOf ?O) (indexablePagesOf (pagesPerStatus t2)) t2"
    have "?R = (fst ?R, snd ?R)" by simp
    from requestPhase_frame[OF this] have "clock t2 \<le> clock (snd ?R)" by simp
    with Ok show ?thesis by (simp add: i2)
  next
    case (Thrown msg)
    then show ?thesis by (simp add: i2)
  next
    case (Exited c)
    then show ?thesis by (simp add: i2)
  qed
  from statusPhase_again[OF sp1 sp2 w st1 fb2 sb1 c1b2 t2K]
  have ok: "r2' = Ok ()"
    and e2: "cacheFiles t2 = cacheFiles b2" "trace t2 = trace b2 @ [CacheWritten ?path]"
      "pagesPerStatus t2 = pagesPerStatus c1"
    by simp_all
  let ?R = "requestPhase E (rpmRetryOf ?O) (indexablePagesOf (pagesPerStatus t2)) t2"
  from i2 ok have i2': "index E P input options t1 = ?R" by simp
  have "?R = (fst ?R, snd ?R)" by simp
  note q2 = requestPhase_frame[OF this]
  have files: "cacheFiles (snd ?R) = cacheFiles t1"
    using q2 e2(1) r2 p2 by simp
  have parts: "pagesPerStatus (snd ?R) = pagesPerStatus t1"
    using q2 e2(3) q1 by simp
  have "occurrences isStatusCall (trace a2) = occurrences isStatusCall (trace t1)"
    by (rule grows_occurrences[of isWarned]) (use p2 in \<open>simp_all add: not_status_call\<close>)
  moreover have "occurrences isStatusCall (trace t2) = occurrences isStatusCall (trace a2)"
    using e2(2) r2 by simp
  moreover have "occurrences isStatusCall (trace (snd ?R)) = occurrences isStatusCall (trace t2)"
    by (rule grows_occurrences[of "\<lambda>e. isProbeCall e \<or> isRequestCall e \<or> isRotated e \<or> isReported e"])
       (use q2 in \<open>simp_all add: not_status_call\<close>)
  ultimately have calls: "occurrences isStatusCall (trace (snd ?R)) = occurrences isStatusCall (trace t1)"
    by simp
  from files calls parts show ?thesis
    unfolding i2' by simp
qed

text \<open>
  Four pages on a clock that advances; the cache document has a record of the first that
  is not indexable and a stale indexable record of the second. The first run makes two
  status calls, for the page with the stale record and the page without one; the second
  run, which ends at the clock value 21, makes none, finds the same two pages indexable
  and leaves the cache files as they were.
\<close>

theorem second_run_idempotent_witness:
  "fst (index successionEnv noVars (Some ''a.test'') noOptions mixedWorld) = Ok ()
   \<and> sameWindow successionEnv 0 21
   \<and> settled successionEnv 0 21 (cachedDoc mixedWorld ''.cache/a.test.json'') mixedPages
   \<and> occurrences isStatusCall
        (trace (snd (index successionEnv noVars (Some ''a.test'') noOptions mixedWorld))) = 2
   \<and> occurrences isStatusCall
        (trace (snd (index successionEnv noVars (Some ''a.test'') noOptions
           (snd (index successionEnv noVars (Some ''a.test'') noOptions mixedWorld))))) = 2
   \<and> indexablePagesOf
        (pagesPerStatus (snd (index successionEnv noVars (Some ''a.test'') noOptions
           (snd (index successionEnv noVars (Some ''a.test'') noOptions mixedWorld)))))
       = [''https://a.test/2'', ''https://a.test/3'']
   \<and> cacheFiles (snd (index successionEnv noVars (Some ''a.test'') noOptions
           (snd (index successionEnv noVars (Some ''a.test'') noOptions mixedWorld))))
       = cacheFiles (snd (index successionEnv noVars (Some ''a.test'') noOptions mixedWorld))"
proof -
  let ?t1 = "snd (index successionEnv noVars (Some ''a.test'') noOptions mixedWorld)"
  let ?t2 = "snd (index successionEnv noVars (Some ''a.test'') noOptions ?t1)"
  let ?site0 = "convertToSiteUrl successionEnv (the (Some ''a.test''))"
  let ?us = "urls (withEnvDefaults noVars noOptions)"
  let ?a1 = "snd (buildPool successionEnv ?site0 [accountA] mixedWorld)"
  let ?b1 = "snd (resolvePages successionEnv ?us ''a.test'' ?a1)"
  let ?a2 = "snd (buildPool successionEnv ?site0 [accountA] ?t1)"
  let ?b2 = "snd (resolvePages successionEnv ?us ''a.test'' ?a2)"
  have ev: "fst (index successionEnv noVars (Some ''a.test'') noOptions mixedWorld) = Ok ()"
    "fst (buildPool successionEnv ?site0 [accountA] mixedWorld) = Ok ''a.test''"
    "fst (resolvePages successionEnv ?us ''a.test'' ?a1) = Ok mixedPages"
    "fst (buildPool successionEnv ?site0 [accountA] ?t1) = Ok ''a.test''"
    "fst (resolvePages successionEnv ?us ''a.test'' ?a2) = Ok mixedPages"
    by code_simp+
  have inp: "\<not> falsy (Some ''a.test'')"
    and creds: "loadCredentials successionEnv (withEnvDefaults noVars noOptions) = Ok [accountA]"
    and vals: "occurrences isStatusCall (trace ?t1) = 2"
      "indexablePagesOf (pagesPerStatus ?t1) = [''https://a.test/2'', ''https://a.test/3'']"
    and clocks: "clock mixedWorld = 0" "clock ?t2 = 21"
      "cachePathOf successionEnv ?site0 = ''.cache/a.test.json''"
    by code_simp+
  from ev have pool1: "buildPool successionEnv ?site0 [accountA] mixedWorld = (Ok ''a.test'', ?a1)"
    and pages1: "resolvePages successionEnv ?us ''a.test'' ?a1 = (Ok mixedPages, ?b1)"
    and run1: "index successionEnv noVars (Some ''a.test'') noOptions mixedWorld = (Ok (), ?t1)"
    and pool2: "buildPool successionEnv ?site0 [accountA] ?t1 = (Ok ''a.test'', ?a2)"
    and pages2: "resolvePages successionEnv ?us ''a.test'' ?a2 = (Ok mixedPages, ?b2)"
    by (simp_all add: prod_eq_iff)
  have w0: "sameWindow successionEnv 0 21"
    and st0: "settled successionEnv 0 21 (cachedDoc mixedWorld ''.cache/a.test.json'') mixedPages"
    by code_simp+
  from w0 have w: "sameWindow successionEnv (clock mixedWorld) (clock ?t2)"
    by (simp only: clocks)
  from st0 have st: "settled successionEnv (clock mixedWorld) (clock ?t2)
      (cachedDoc mixedWorld (cachePathOf successionEnv ?site0)) mixedPages"
    by (simp only: clocks)
  from second_run_idempotent[OF inp creds pool1 pages1 run1 pool2 pages2 w st] vals ev(1) w0 st0
  show ?thesis by simp
qed

end
